theory Spec2Isabelle
  imports Main "HOL-Library.Word" "HOL-Library.Multiset"
begin

unbundle bit_operations_syntax

section \<open>Machine types and failures\<close>

text \<open>
  \<open>NSUInteger\<close>, \<open>size_t\<close> and \<open>uint64_t\<close> are 64-bit unsigned integers on the
  platforms Metal runs on: arithmetic wraps around.  An assertion of the source
  (\<open>assert\<close>, \<open>assert_invariant\<close>) that does not hold ends the call; the model returns
  the assertion as an error value.
\<close>

type_synonym NSUInteger = "64 word"
type_synonym uint64_t = "64 word"

datatype error =
    AlignmentNotPowerOfTwo   \<comment> \<open>\<open>assert(alignment && !(alignment & alignment-1))\<close>\<close>
  | TypeIsNone               \<comment> \<open>\<open>assert_invariant(type != Type::NONE)\<close>\<close>
  | BufferIsNil              \<comment> \<open>\<open>assert_invariant(mBuffer)\<close>, \<open>assert_invariant(mAuxBuffer)\<close>\<close>
  | OccupiedExceedsSlotCount \<comment> \<open>\<open>assert_invariant(occupiedSlots <= mSlotCount)\<close>\<close>
  | CounterReleased          \<comment> \<open>a ring buffer used after its destruction\<close>
  | NoSuchObject             \<comment> \<open>a trace naming an object that does not exist\<close>

section \<open>The alignment helper\<close>

text \<open>
  \<^verbatim>\<open>
  template <typename TYPE>
  static inline TYPE align(TYPE p, size_t alignment) noexcept {
      // alignment must be a power-of-two
      assert(alignment && !(alignment & alignment-1));
      return (TYPE)((p + alignment - 1) & ~(alignment - 1));
  }
  \<close>
  Every use in the unit instantiates \<open>TYPE\<close> with \<open>NSUInteger\<close>.
\<close>

definition align :: "NSUInteger \<Rightarrow> 64 word \<Rightarrow> error + NSUInteger" where
  "align p alignment =
     (if alignment \<noteq> 0 \<and> alignment AND (alignment - 1) = 0
      then Inr ((p + alignment - 1) AND NOT (alignment - 1))
      else Inl AlignmentNotPowerOfTwo)"

text \<open>The least multiple of \<open>a\<close> that is at least \<open>n\<close>, on unbounded naturals.\<close>

definition round_up :: "nat \<Rightarrow> nat \<Rightarrow> nat" where
  "round_up n a = ((n + a - 1) div a) * a"

section \<open>Slot size of a ring buffer\<close>

record MTLSizeAndAlign =
  size_of :: NSUInteger
  align_of :: NSUInteger

text \<open>
  \<open>METAL_CONSTANT_BUFFER_OFFSET_ALIGNMENT\<close> is chosen by the preprocessor from the
  deployment target.
\<close>

datatype deployment_target = IOS_SIMULATOR | IOS_DEVICE | OTHER_TARGET

fun METAL_CONSTANT_BUFFER_OFFSET_ALIGNMENT :: "deployment_target \<Rightarrow> 64 word" where
  "METAL_CONSTANT_BUFFER_OFFSET_ALIGNMENT IOS_SIMULATOR = 256"
| "METAL_CONSTANT_BUFFER_OFFSET_ALIGNMENT IOS_DEVICE = 4"
| "METAL_CONSTANT_BUFFER_OFFSET_ALIGNMENT OTHER_TARGET = 32"

definition computeSlotSize :: "deployment_target \<Rightarrow> MTLSizeAndAlign \<Rightarrow> error + NSUInteger" where
  "computeSlotSize tgt layout =
     (case align (size_of layout) (align_of layout) of
        Inl e \<Rightarrow> Inl e
      | Inr s \<Rightarrow> align s (METAL_CONSTANT_BUFFER_OFFSET_ALIGNMENT tgt))"

section \<open>Tracked device buffers\<close>

text \<open>
  \<open>id<MTLBuffer>\<close> is an object reference; the model keeps the identity of the object
  as a number, \<open>0\<close> for \<open>nil\<close>.
\<close>

type_synonym MTLBuffer = nat

datatype Type = NONE | GENERIC | RING | STAGING

definition TypeCount :: nat where
  "TypeCount = 3"

definition EXCESS_BUFFER_COUNT :: "64 word" where
  "EXCESS_BUFFER_COUNT = 30000"

fun toIndex :: "Type \<Rightarrow> error + nat" where
  "toIndex NONE = Inl TypeIsNone"
| "toIndex GENERIC = Inr 0"
| "toIndex RING = Inr 1"
| "toIndex STAGING = Inr 2"

text \<open>
  Modelled from the spec: \<open>MetalPlatform\<close> is declared in \<open>MetalPlatform.h\<close>, which is
  not part of the unit.  It is the diagnostics sink (\<open>recordStat(name, value)\<close>,
  optional): \<open>debugUpdateStat\<close> hands a named value to the sink, which the model keeps
  in the list \<open>statsReported\<close>.
\<close>

record MetalPlatform =
  hasDebugUpdateStatFunc :: bool

text \<open>
  The static members of \<open>TrackedMetalBuffer\<close>: the array \<open>aliveBuffers\<close> (indexed by
  \<open>toIndex\<close>, \<open>TypeCount\<close> entries) and the pointer \<open>platform\<close> (\<open>None\<close> when null).
\<close>

record tracker =
  aliveBuffers :: "nat \<Rightarrow> uint64_t"
  platform :: "MetalPlatform option"
  statsReported :: "(string \<times> uint64_t) list"

record TrackedMetalBuffer =
  mBuffer :: MTLBuffer
  mType :: Type

definition getAliveBuffers :: "tracker \<Rightarrow> uint64_t" where
  "getAliveBuffers t = foldl (\<lambda>sum v. sum + v) 0 (map (aliveBuffers t) [0..<TypeCount])"

definition getAliveBuffersOf :: "Type \<Rightarrow> tracker \<Rightarrow> error + uint64_t" where
  "getAliveBuffersOf ty t =
     (case toIndex ty of Inl e \<Rightarrow> Inl e | Inr i \<Rightarrow> Inr (aliveBuffers t i))"

definition debugUpdateStat :: "string \<Rightarrow> uint64_t \<Rightarrow> tracker \<Rightarrow> tracker" where
  "debugUpdateStat key v t = t\<lparr>statsReported := statsReported t @ [(key, v)]\<rparr>"

text \<open>\<open>TrackedMetalBuffer()\<close> and \<open>TrackedMetalBuffer(nullptr_t)\<close>.\<close>

definition TrackedMetalBuffer_nil :: TrackedMetalBuffer where
  "TrackedMetalBuffer_nil = \<lparr>mBuffer = 0, mType = NONE\<rparr>"

text \<open>\<open>TrackedMetalBuffer(id<MTLBuffer> buffer, Type type)\<close>.\<close>

definition TrackedMetalBuffer_new ::
  "MTLBuffer \<Rightarrow> Type \<Rightarrow> tracker \<Rightarrow> error + (TrackedMetalBuffer \<times> tracker)" where
  "TrackedMetalBuffer_new buffer ty t =
     (if ty = NONE then Inl TypeIsNone
      else if buffer \<noteq> 0 then
        (case toIndex ty of
           Inl e \<Rightarrow> Inl e
         | Inr i \<Rightarrow>
             let t1 = t\<lparr>aliveBuffers := (aliveBuffers t)(i := aliveBuffers t i + 1)\<rparr>;
                 t2 = (if EXCESS_BUFFER_COUNT \<le> getAliveBuffers t1
                       then (case platform t1 of
                               None \<Rightarrow> t1
                             | Some p \<Rightarrow>
                                 if hasDebugUpdateStatFunc p
                                 then debugUpdateStat ''filament.metal.excess_buffers_allocated''
                                        (getAliveBuffers t1) t1
                                 else t1)
                       else t1)
             in Inr (\<lparr>mBuffer = buffer, mType = ty\<rparr>, t2))
      else Inr (\<lparr>mBuffer = buffer, mType = ty\<rparr>, t))"

text \<open>\<open>~TrackedMetalBuffer()\<close>.\<close>

definition TrackedMetalBuffer_delete :: "TrackedMetalBuffer \<Rightarrow> tracker \<Rightarrow> error + tracker" where
  "TrackedMetalBuffer_delete b t =
     (if mBuffer b \<noteq> 0 then
        (case toIndex (mType b) of
           Inl e \<Rightarrow> Inl e
         | Inr i \<Rightarrow> Inr (t\<lparr>aliveBuffers := (aliveBuffers t)(i := aliveBuffers t i - 1)\<rparr>))
      else Inr t)"

text \<open>\<open>swap\<close> exchanges both members; the move assignment is \<open>swap(rhs)\<close>.\<close>

definition swap_tracked ::
  "TrackedMetalBuffer \<Rightarrow> TrackedMetalBuffer \<Rightarrow> TrackedMetalBuffer \<times> TrackedMetalBuffer" where
  "swap_tracked this other = (other, this)"

text \<open>
  The statement \<open>lhs = { buffer, type }\<close>: a temporary is constructed, swapped with
  \<open>lhs\<close> by the move assignment, and destroyed holding what \<open>lhs\<close> held.
\<close>

definition assign_tracked ::
  "TrackedMetalBuffer \<Rightarrow> MTLBuffer \<Rightarrow> Type \<Rightarrow> tracker \<Rightarrow> error + (TrackedMetalBuffer \<times> tracker)" where
  "assign_tracked lhs buffer ty t =
     (case TrackedMetalBuffer_new buffer ty t of
        Inl e \<Rightarrow> Inl e
      | Inr (tmp, t1) \<Rightarrow>
          (case swap_tracked lhs tmp of
             (lhs', tmp') \<Rightarrow>
               (case TrackedMetalBuffer_delete tmp' t1 of
                  Inl e \<Rightarrow> Inl e
                | Inr t2 \<Rightarrow> Inr (lhs', t2))))"

text \<open>The statement \<open>lhs = nil\<close>: the temporary is \<open>TrackedMetalBuffer(nullptr_t)\<close>.\<close>

definition assign_nil ::
  "TrackedMetalBuffer \<Rightarrow> tracker \<Rightarrow> error + (TrackedMetalBuffer \<times> tracker)" where
  "assign_nil lhs t =
     (case swap_tracked lhs TrackedMetalBuffer_nil of
        (lhs', tmp') \<Rightarrow>
          (case TrackedMetalBuffer_delete tmp' t of
             Inl e \<Rightarrow> Inl e
           | Inr t1 \<Rightarrow> Inr (lhs', t1)))"

subsection \<open>Histories of tracked buffers\<close>

text \<open>
  What the rest of the backend does with tracked buffers, as a list of events on the
  objects alive: one is constructed, the \<open>i\<close>-th one is destroyed, the \<open>i\<close>-th one is
  move-assigned from the \<open>j\<close>-th one.
\<close>

datatype tracked_event =
    New MTLBuffer Type
  | NewNil
  | Delete nat
  | MoveAssign nat nat

fun tracked_step ::
  "tracked_event \<Rightarrow> TrackedMetalBuffer list \<times> tracker \<Rightarrow> error + (TrackedMetalBuffer list \<times> tracker)" where
  "tracked_step (New buffer ty) (objs, t) =
     (case TrackedMetalBuffer_new buffer ty t of
        Inl e \<Rightarrow> Inl e
      | Inr (b, t') \<Rightarrow> Inr (objs @ [b], t'))"
| "tracked_step NewNil (objs, t) = Inr (objs @ [TrackedMetalBuffer_nil], t)"
| "tracked_step (Delete i) (objs, t) =
     (if i < length objs then
        (case TrackedMetalBuffer_delete (objs ! i) t of
           Inl e \<Rightarrow> Inl e
         | Inr t' \<Rightarrow> Inr (take i objs @ drop (Suc i) objs, t'))
      else Inl NoSuchObject)"
| "tracked_step (MoveAssign i j) (objs, t) =
     (if i < length objs \<and> j < length objs then
        (case swap_tracked (objs ! i) (objs ! j) of
           (a, b) \<Rightarrow> Inr ((objs[i := a])[j := b], t))
      else Inl NoSuchObject)"

fun tracked_run ::
  "tracked_event list \<Rightarrow> TrackedMetalBuffer list \<times> tracker \<Rightarrow> error + (TrackedMetalBuffer list \<times> tracker)" where
  "tracked_run [] s = Inr s"
| "tracked_run (ev # evs) s =
     (case tracked_step ev s of Inl e \<Rightarrow> Inl e | Inr s' \<Rightarrow> tracked_run evs s')"

text \<open>The process starts with every counter at zero and no object alive.\<close>

definition tracker_start :: "MetalPlatform option \<Rightarrow> tracker" where
  "tracker_start p = \<lparr>aliveBuffers = (\<lambda>_. 0), platform = p, statsReported = []\<rparr>"

text \<open>
  Bookkeeping on a history: how many constructions of category \<open>ty\<close> had a non-nil
  handle, and how many destructions hit an object of category \<open>ty\<close> with a non-nil
  handle (the objects alive are followed along the history).
\<close>

definition counted :: "Type \<Rightarrow> TrackedMetalBuffer \<Rightarrow> bool" where
  "counted ty b = (mBuffer b \<noteq> 0 \<and> mType b = ty)"

fun constructions :: "Type \<Rightarrow> tracked_event list \<Rightarrow> nat" where
  "constructions ty [] = 0"
| "constructions ty (New buffer ty' # evs) =
     (if buffer \<noteq> 0 \<and> ty' = ty then 1 else 0) + constructions ty evs"
| "constructions ty (_ # evs) = constructions ty evs"

fun destructions :: "Type \<Rightarrow> tracked_event list \<Rightarrow> TrackedMetalBuffer list \<Rightarrow> nat" where
  "destructions ty [] objs = 0"
| "destructions ty (New buffer ty' # evs) objs =
     destructions ty evs (objs @ [\<lparr>mBuffer = buffer, mType = ty'\<rparr>])"
| "destructions ty (NewNil # evs) objs = destructions ty evs (objs @ [TrackedMetalBuffer_nil])"
| "destructions ty (Delete i # evs) objs =
     (if i < length objs \<and> counted ty (objs ! i) then 1 else 0)
       + destructions ty evs (take i objs @ drop (Suc i) objs)"
| "destructions ty (MoveAssign i j # evs) objs =
     destructions ty evs
       (if i < length objs \<and> j < length objs then (objs[i := objs ! j])[j := objs ! i] else objs)"

section \<open>The ring buffer\<close>

subsection \<open>The collaborators\<close>

text \<open>
  Modelled from the spec: the device (\<open>allocate(lengthBytes, options) -> handle-or-null\<close>;
  allocation may fail and must not throw) belongs to the Metal framework.  The model
  numbers the requests; whether the device grants the \<open>k\<close>-th request, of a given
  length, is a parameter, and a granted request yields a buffer object that did not
  exist before.
\<close>

record MTLDevice =
  requests :: nat
  grants :: "nat \<Rightarrow> NSUInteger \<Rightarrow> bool"

type_synonym MTLResourceOptions = nat

definition newBufferWithLength ::
  "MTLDevice \<Rightarrow> NSUInteger \<Rightarrow> MTLResourceOptions \<Rightarrow> MTLBuffer \<times> MTLDevice" where
  "newBufferWithLength dev len options =
     (if grants dev (requests dev) len then Suc (requests dev) else 0,
      dev\<lparr>requests := Suc (requests dev)\<rparr>)"

text \<open>
  Modelled from the spec: the execution unit (\<open>addCompletionCallback(fn)\<close>; the callback
  fires exactly once, after the unit finishes executing) is \<open>id<MTLCommandBuffer>\<close>.
  The block that \<open>createNewAllocation\<close> hands to \<open>addCompletedHandler\<close> captures one
  thing, the \<open>weak_ptr\<close> to the counter; a registered handler is the pair of the command
  buffer and the counter the \<open>weak_ptr\<close> refers to.

  A \<open>shared_ptr<atomic<NSUInteger>>\<close> is the address of a counter in \<open>counters\<close>; the
  counter exists as long as its only owner, the ring buffer, does, and an address is
  never used again (a \<open>weak_ptr\<close> does not come back to life).
\<close>

type_synonym MTLCommandBuffer = nat

record world =
  trackerOf :: tracker
  device :: MTLDevice
  counters :: "nat \<Rightarrow> NSUInteger option"
  nextCounter :: nat
  completedHandlers :: "(MTLCommandBuffer \<times> nat) list"

subsection \<open>The class\<close>

record MetalRingBuffer =
  mBuffer_ring :: TrackedMetalBuffer
  mAuxBuffer :: TrackedMetalBuffer
  mBufferOptions :: MTLResourceOptions
  mSlotSizeBytes :: NSUInteger
  mSlotCount :: NSUInteger
  mCurrentSlot :: NSUInteger
  mOccupiedSlots :: nat

text \<open>
  The constructor.  The members are initialised in the order of their declaration
  (\<open>mSlotSizeBytes\<close> before \<open>mOccupiedSlots = make_shared<AtomicCounterType>(1)\<close>), then
  the body allocates \<open>mSlotSizeBytes * mSlotCount\<close> bytes.  \<open>ScopedAllocationTimer\<close>
  only measures time and is left out.
\<close>

definition MetalRingBuffer_new ::
  "deployment_target \<Rightarrow> MTLResourceOptions \<Rightarrow> MTLSizeAndAlign \<Rightarrow> NSUInteger \<Rightarrow> world
     \<Rightarrow> error + (MetalRingBuffer \<times> world)" where
  "MetalRingBuffer_new tgt options layout slotCount w =
     (case computeSlotSize tgt layout of
        Inl e \<Rightarrow> Inl e
      | Inr slotSize \<Rightarrow>
          let a = nextCounter w;
              w1 = w\<lparr>counters := (counters w)(a \<mapsto> 1), nextCounter := Suc a\<rparr>
          in (case newBufferWithLength (device w1) (slotSize * slotCount) options of
                (buffer, dev) \<Rightarrow>
                  (case assign_tracked TrackedMetalBuffer_nil buffer RING (trackerOf w1) of
                     Inl e \<Rightarrow> Inl e
                   | Inr (b, t) \<Rightarrow>
                       if mBuffer b = 0 then Inl BufferIsNil
                       else Inr (\<lparr>mBuffer_ring = b,
                                  mAuxBuffer = TrackedMetalBuffer_nil,
                                  mBufferOptions = options,
                                  mSlotSizeBytes = slotSize,
                                  mSlotCount = slotCount,
                                  mCurrentSlot = 0,
                                  mOccupiedSlots = a\<rparr>,
                                 w1\<lparr>device := dev, trackerOf := t\<rparr>))))"

definition getCurrentAllocation :: "MetalRingBuffer \<Rightarrow> MTLBuffer \<times> NSUInteger" where
  "getCurrentAllocation rb =
     (if mBuffer (mAuxBuffer rb) \<noteq> 0 then (mBuffer (mAuxBuffer rb), 0)
      else (mBuffer (mBuffer_ring rb), mCurrentSlot rb * mSlotSizeBytes rb))"

definition canAccomodateLayout ::
  "deployment_target \<Rightarrow> MetalRingBuffer \<Rightarrow> MTLSizeAndAlign \<Rightarrow> error + bool" where
  "canAccomodateLayout tgt rb layout =
     (case computeSlotSize tgt layout of
        Inl e \<Rightarrow> Inl e
      | Inr s \<Rightarrow> Inr (s \<le> mSlotSizeBytes rb))"

text \<open>\<open>fetch_add\<close> on the counter at an address.\<close>

definition fetch_add :: "nat \<Rightarrow> NSUInteger \<Rightarrow> world \<Rightarrow> world" where
  "fetch_add a n w =
     (case counters w a of
        None \<Rightarrow> w
      | Some c \<Rightarrow> w\<lparr>counters := (counters w)(a \<mapsto> c + n)\<rparr>)"

text \<open>
  The completed handler:
  \<^verbatim>\<open>if (auto s = slots.lock()) { s->fetch_sub(1, std::memory_order_relaxed); }\<close>
\<close>

definition completedHandler :: "nat \<Rightarrow> world \<Rightarrow> world" where
  "completedHandler slots w =
     (case counters w slots of
        None \<Rightarrow> w
      | Some c \<Rightarrow> w\<lparr>counters := (counters w)(slots \<mapsto> c - 1)\<rparr>)"

definition addCompletedHandler :: "MTLCommandBuffer \<Rightarrow> nat \<Rightarrow> world \<Rightarrow> world" where
  "addCompletedHandler cmdBuffer slots w =
     w\<lparr>completedHandlers := completedHandlers w @ [(cmdBuffer, slots)]\<rparr>"

text \<open>
  \<open>createNewAllocation\<close>.  Past the assertion and the test for a full ring,
  \<open>occupiedSlots < mSlotCount\<close>, so the modulus is not zero.
\<close>

definition createNewAllocation ::
  "MTLCommandBuffer \<Rightarrow> MetalRingBuffer \<Rightarrow> world
     \<Rightarrow> error + ((MTLBuffer \<times> NSUInteger) \<times> MetalRingBuffer \<times> world)" where
  "createNewAllocation cmdBuffer rb w =
     (case counters w (mOccupiedSlots rb) of
        None \<Rightarrow> Inl CounterReleased
      | Some occupiedSlots \<Rightarrow>
          if \<not> occupiedSlots \<le> mSlotCount rb then Inl OccupiedExceedsSlotCount
          else if occupiedSlots = mSlotCount rb then
            (case newBufferWithLength (device w) (mSlotSizeBytes rb) (mBufferOptions rb) of
               (buffer, dev) \<Rightarrow>
                 (case assign_tracked (mAuxBuffer rb) buffer RING (trackerOf w) of
                    Inl e \<Rightarrow> Inl e
                  | Inr (aux, t) \<Rightarrow>
                      if mBuffer aux = 0 then Inl BufferIsNil
                      else Inr ((mBuffer aux, 0),
                                rb\<lparr>mAuxBuffer := aux\<rparr>,
                                w\<lparr>device := dev, trackerOf := t\<rparr>)))
          else
            let rb1 = rb\<lparr>mCurrentSlot := (mCurrentSlot rb + 1) mod mSlotCount rb\<rparr>;
                w1 = fetch_add (mOccupiedSlots rb1) 1 w
            in if mBuffer (mAuxBuffer rb1) \<noteq> 0 then
                 (case assign_nil (mAuxBuffer rb1) (trackerOf w1) of
                    Inl e \<Rightarrow> Inl e
                  | Inr (aux, t) \<Rightarrow>
                      let rb2 = rb1\<lparr>mAuxBuffer := aux\<rparr>
                      in Inr (getCurrentAllocation rb2, rb2, w1\<lparr>trackerOf := t\<rparr>))
               else
                 Inr (getCurrentAllocation rb1, rb1,
                      addCompletedHandler cmdBuffer (mOccupiedSlots rb1) w1))"

text \<open>
  The destructor is the implicit one: the members are destroyed in the reverse order of
  their declaration, \<open>mOccupiedSlots\<close> first (the counter goes with its only owner), then
  \<open>mAuxBuffer\<close> and \<open>mBuffer\<close>.
\<close>

definition MetalRingBuffer_delete :: "MetalRingBuffer \<Rightarrow> world \<Rightarrow> error + world" where
  "MetalRingBuffer_delete rb w =
     (let w1 = w\<lparr>counters := (counters w)(mOccupiedSlots rb := None)\<rparr>
      in case TrackedMetalBuffer_delete (mAuxBuffer rb) (trackerOf w1) of
           Inl e \<Rightarrow> Inl e
         | Inr t1 \<Rightarrow>
             (case TrackedMetalBuffer_delete (mBuffer_ring rb) t1 of
                Inl e \<Rightarrow> Inl e
              | Inr t2 \<Rightarrow> Inr (w1\<lparr>trackerOf := t2\<rparr>)))"

subsection \<open>Completion of command buffers and histories of a ring buffer\<close>

text \<open>
  When a command buffer completes, Metal calls the handlers registered on it, each
  once, in the order of their registration.
\<close>

fun fire :: "MTLCommandBuffer \<Rightarrow> (MTLCommandBuffer \<times> nat) list \<Rightarrow> world \<Rightarrow> world" where
  "fire cmdBuffer [] w = w"
| "fire cmdBuffer ((c, slots) # hs) w =
     fire cmdBuffer hs (if c = cmdBuffer then completedHandler slots w else w)"

definition commandBufferCompleted :: "MTLCommandBuffer \<Rightarrow> world \<Rightarrow> world" where
  "commandBufferCompleted cmdBuffer w =
     (fire cmdBuffer (completedHandlers w) w)
       \<lparr>completedHandlers := filter (\<lambda>h. fst h \<noteq> cmdBuffer) (completedHandlers w)\<rparr>"

text \<open>
  A history of a ring buffer: calls of \<open>createNewAllocation\<close> on the backend thread and
  completions of command buffers, each completion placed between two calls.
\<close>

datatype ring_event =
    NewAllocation MTLCommandBuffer
  | Completed MTLCommandBuffer

fun ring_run ::
  "ring_event list \<Rightarrow> MetalRingBuffer \<times> world
     \<Rightarrow> error + ((MTLBuffer \<times> NSUInteger) list \<times> MetalRingBuffer \<times> world)" where
  "ring_run [] (rb, w) = Inr ([], rb, w)"
| "ring_run (NewAllocation c # evs) (rb, w) =
     (case createNewAllocation c rb w of
        Inl e \<Rightarrow> Inl e
      | Inr (p, rb', w') \<Rightarrow>
          (case ring_run evs (rb', w') of
             Inl e \<Rightarrow> Inl e
           | Inr (ps, s) \<Rightarrow> Inr (p # ps, s)))"
| "ring_run (Completed c # evs) (rb, w) = ring_run evs (rb, commandBufferCompleted c w)"

text \<open>The in-flight count of a ring buffer: the value of its shared counter.\<close>

definition occupiedSlots :: "MetalRingBuffer \<Rightarrow> world \<Rightarrow> NSUInteger option" where
  "occupiedSlots rb w = counters w (mOccupiedSlots rb)"

text \<open>A world at the start of the process, with a device that grants every request.\<close>

definition world_start :: "MetalPlatform option \<Rightarrow> world" where
  "world_start p =
     \<lparr>trackerOf = tracker_start p,
      device = \<lparr>requests = 0, grants = (\<lambda>_ _. True)\<rparr>,
      counters = (\<lambda>_. None),
      nextCounter = 0,
      completedHandlers = []\<rparr>"

section \<open>Invariants and histories\<close>

text \<open>
  The objects of category \<open>ty\<close> alive with a non-nil handle, and the invariant that ties
  the counters to the objects alive.
\<close>

definition alive_count :: "Type \<Rightarrow> TrackedMetalBuffer list \<Rightarrow> nat" where
  "alive_count ty objs = length (filter (counted ty) objs)"

definition tracked_inv :: "TrackedMetalBuffer list \<Rightarrow> tracker \<Rightarrow> bool" where
  "tracked_inv objs t =
     ((\<forall>b \<in> set objs. mBuffer b \<noteq> 0 \<longrightarrow> mType b \<noteq> NONE)
      \<and> aliveBuffers t 0 = of_nat (alive_count GENERIC objs)
      \<and> aliveBuffers t 1 = of_nat (alive_count RING objs)
      \<and> aliveBuffers t 2 = of_nat (alive_count STAGING objs))"

text \<open>
  The handlers registered on a command buffer for a counter, the handlers that refer to
  a counter, the invariant of a ring buffer among the histories of its process, and the
  history of a ring buffer built at the start of a process.
\<close>

definition registered :: "MTLCommandBuffer \<Rightarrow> nat \<Rightarrow> world \<Rightarrow> nat" where
  "registered cmdBuffer slots w = length (filter (\<lambda>h. h = (cmdBuffer, slots)) (completedHandlers w))"

definition pending :: "nat \<Rightarrow> world \<Rightarrow> nat" where
  "pending slots w = length (filter (\<lambda>h. snd h = slots) (completedHandlers w))"


definition ring_history ::
  "deployment_target \<Rightarrow> MTLSizeAndAlign \<Rightarrow> NSUInteger \<Rightarrow> ring_event list
     \<Rightarrow> error + ((MTLBuffer \<times> NSUInteger) list \<times> MetalRingBuffer \<times> world)" where
  "ring_history tgt layout slotCount evs =
     (case MetalRingBuffer_new tgt 0 layout slotCount (world_start None) of
        Inl e \<Rightarrow> Inl e
      | Inr s \<Rightarrow> ring_run evs s)"


text \<open>
  What can happen in the process after a given moment: command buffers complete, ring
  buffers are constructed, make allocations and are destroyed.  A failed assertion
  ends the process.
\<close>

datatype process_event =
    CommandBufferCompletes MTLCommandBuffer
  | RingBufferConstructed deployment_target MTLResourceOptions MTLSizeAndAlign NSUInteger
  | RingBufferAllocates MTLCommandBuffer MetalRingBuffer
  | RingBufferDestroyed MetalRingBuffer

fun process_step :: "process_event \<Rightarrow> world \<Rightarrow> error + world" where
  "process_step (CommandBufferCompletes cmdBuffer) w = Inr (commandBufferCompleted cmdBuffer w)"
| "process_step (RingBufferConstructed tgt options layout slotCount) w =
     map_sum id snd (MetalRingBuffer_new tgt options layout slotCount w)"
| "process_step (RingBufferAllocates cmdBuffer rb) w =
     map_sum id (\<lambda>(p, rb', w'). w') (createNewAllocation cmdBuffer rb w)"
| "process_step (RingBufferDestroyed rb) w = MetalRingBuffer_delete rb w"

fun process_run :: "process_event list \<Rightarrow> world \<Rightarrow> error + world" where
  "process_run [] w = Inr w"
| "process_run (ev # evs) w =
     (case process_step ev w of Inl e \<Rightarrow> Inl e | Inr w' \<Rightarrow> process_run evs w')"

section \<open>Rounding to a power of two\<close>

lemma nat_and_pred_zero:
  "0 < (x::nat) \<Longrightarrow> x AND (x - 1) = 0 \<Longrightarrow> \<exists>n. x = 2 ^ n"
proof (induction x rule: less_induct)
  case (less x)
  show ?case
  proof (cases "even x")
    case True
    then obtain y where y: "x = 2 * y" by (elim evenE)
    with less.prems have y0: "0 < y" by simp
    have "x - 1 = 2 * (y - 1) + 1" using y y0 by simp
    then have "x AND (x - 1) = 2 * (y AND (y - 1))"
      using y by (subst and_nat_rec) simp
    with less.prems have "y AND (y - 1) = 0" by simp
    moreover have "y < x" using y y0 by simp
    ultimately obtain n where "y = 2 ^ n" using less.IH y0 by blast
    then have "x = 2 ^ Suc n" using y by simp
    then show ?thesis by blast
  next
    case False
    then obtain y where y: "x = 2 * y + 1" by (elim oddE)
    then have "x AND (x - 1) = 2 * y"
      by (subst and_nat_rec) simp
    with less.prems have "y = 0" by simp
    then have "x = 2 ^ 0" using y by simp
    then show ?thesis by blast
  qed
qed

lemma unat_exp64: "n < 64 \<Longrightarrow> unat (2 ^ n :: 64 word) = 2 ^ n"
proof -
  assume n: "n < 64"
  have "unat (push_bit n (1 :: 64 word)) = take_bit LENGTH(64) (push_bit n (unat (1 :: 64 word)))"
    by (simp only: unsigned_push_bit_eq)
  also have "\<dots> = take_bit LENGTH(64) ((2::nat) ^ n)"
    by (simp add: push_bit_eq_mult)
  also have "\<dots> = 2 ^ n" using n by (simp add: take_bit_nat_eq_self)
  finally show ?thesis by (simp add: push_bit_eq_mult)
qed

text \<open>The assertion of \<open>align\<close> holds exactly for the powers of two.\<close>

lemma assertion_imp_exp:
  fixes a :: "64 word"
  assumes "a \<noteq> 0" "a AND (a - 1) = 0"
  shows "\<exists>n<64. a = 2 ^ n"
proof -
  have pos: "0 < unat a" using assms(1) by (simp add: unat_gt_0)
  have "unat (a AND (a - 1)) = 0" using assms(2) by simp
  moreover have "unat (a - 1) = unat a - 1"
    by (simp add: unat_minus_one assms(1))
  ultimately have "unat a AND (unat a - 1) = 0"
    by (simp add: unsigned_and_eq)
  then obtain n where n: "unat a = 2 ^ n" using nat_and_pred_zero pos by blast
  have "(2::nat) ^ n < 2 ^ 64" using unsigned_less [of a, where ?'a = nat] n by simp
  then have "n < 64" by (rule power_less_imp_less_exp [rotated]) simp
  moreover have "a = 2 ^ n" using arg_cong [OF n, of "word_of_nat :: nat \<Rightarrow> 64 word"]
    by simp
  ultimately show ?thesis by blast
qed

lemma exp_imp_assertion:
  fixes a :: "64 word"
  assumes "n < 64" "a = 2 ^ n"
  shows "a \<noteq> 0 \<and> a AND (a - 1) = 0"
proof -
  have "(2 ^ n :: 64 word) AND mask n = 0"
    by (rule bit_eqI) (auto simp: bit_simps)
  then have "a AND (a - 1) = 0" using assms(2) by (simp add: mask_eq_exp_minus_1)
  moreover have "a \<noteq> 0" using assms by simp
  ultimately show ?thesis by simp
qed

lemma unat_and_not_mask:
  fixes x :: "64 word"
  shows "unat (x AND NOT (mask n)) = (unat x div 2 ^ n) * 2 ^ n"
proof -
  have e: "x AND NOT (mask n) = push_bit n (drop_bit n x)"
    by (rule bit_eqI) (auto simp: bit_simps)
  have "(unat x div 2 ^ n) * 2 ^ n \<le> unat x" by simp
  also have "\<dots> < 2 ^ LENGTH(64)" by (rule unsigned_less)
  finally have lt: "(unat x div 2 ^ n) * 2 ^ n < 2 ^ LENGTH(64)" .
  have "unat (push_bit n (drop_bit n x)) = take_bit LENGTH(64) (push_bit n (drop_bit n (unat x)))"
    by (simp only: unsigned_push_bit_eq unat_drop_bit_eq)
  also have "\<dots> = take_bit LENGTH(64) ((unat x div 2 ^ n) * 2 ^ n)"
    by (simp only: push_bit_eq_mult drop_bit_eq_div)
  also have "\<dots> = (unat x div 2 ^ n) * 2 ^ n"
    using lt by (simp only: take_bit_nat_eq_self)
  finally show ?thesis using e by simp
qed

lemma round_up_ge: "0 < a \<Longrightarrow> n \<le> round_up n a"
proof -
  assume a: "0 < a"
  have "n + a - 1 = ((n + a - 1) div a) * a + (n + a - 1) mod a" by simp
  moreover have "(n + a - 1) mod a \<le> a - 1" using a
    by (metis Suc_pred less_Suc_eq_le mod_less_divisor One_nat_def)
  ultimately have "n + a - 1 \<le> round_up n a + (a - 1)" unfolding round_up_def by linarith
  then show ?thesis using a by linarith
qed

lemma round_up_less: "0 < a \<Longrightarrow> round_up n a < n + a"
proof -
  assume a: "0 < a"
  have "((n + a - 1) div a) * a \<le> n + a - 1" by simp
  then show ?thesis using a unfolding round_up_def by linarith
qed

lemma round_up_least: "0 < a \<Longrightarrow> a dvd m \<Longrightarrow> n \<le> m \<Longrightarrow> round_up n a \<le> m"
proof -
  assume a: "0 < a" and d: "a dvd m" and le: "n \<le> m"
  from d obtain k where k: "m = a * k" ..
  have "n + a - 1 < a * (k + 1)" using le k a by simp
  then have "(n + a - 1) div a < k + 1" using a
    by (simp add: div_less_iff_less_mult mult.commute)
  then have "(n + a - 1) div a \<le> k" by simp
  then have "((n + a - 1) div a) * a \<le> k * a" by (rule mult_le_mono1)
  then show ?thesis using k by (simp add: round_up_def mult.commute)
qed

lemma round_up_dvd: "a dvd round_up n a"
  by (simp add: round_up_def)

lemma round_up_multiple: "0 < a \<Longrightarrow> a dvd n \<Longrightarrow> round_up n a = n"
proof -
  assume a: "0 < a" and d: "a dvd n"
  have "n \<le> round_up n a" using a by (rule round_up_ge)
  moreover have "round_up n a \<le> n" using a d by (rule round_up_least) simp
  ultimately show ?thesis by simp
qed

text \<open>A rounded value below \<open>2 ^ 64\<close> means that the sum in \<open>align\<close> did not wrap.\<close>

lemma round_up_representable:
  assumes n: "n < 64" and r: "round_up p (2 ^ n) < 2 ^ 64"
  shows "p + 2 ^ n \<le> 2 ^ 64"
proof (rule ccontr)
  assume "\<not> p + 2 ^ n \<le> 2 ^ 64"
  then have big: "(2::nat) ^ 64 \<le> p + 2 ^ n - 1" by simp
  have split: "(2::nat) ^ 64 = 2 ^ (64 - n) * 2 ^ n" using n by (simp flip: power_add)
  have "(2::nat) ^ (64 - n) = (2 ^ (64 - n) * 2 ^ n) div 2 ^ n" by simp
  also have "\<dots> \<le> (p + 2 ^ n - 1) div 2 ^ n"
    using big unfolding split by (rule div_le_mono)
  finally have "2 ^ (64 - n) * 2 ^ n \<le> ((p + 2 ^ n - 1) div 2 ^ n) * (2::nat) ^ n"
    by (rule mult_le_mono1)
  then have "(2::nat) ^ 64 \<le> round_up p (2 ^ n)" unfolding round_up_def split .
  with r show False by simp
qed

lemma unat_align_value:
  fixes p a :: "64 word"
  assumes n: "n < 64" and a: "a = 2 ^ n" and nowrap: "unat p + unat a \<le> 2 ^ 64"
  shows "unat ((p + a - 1) AND NOT (a - 1)) = round_up (unat p) (unat a)"
proof -
  have ua: "unat a = 2 ^ n" using n a by (simp add: unat_exp64)
  have a0: "a \<noteq> 0" using exp_imp_assertion [OF n a] by simp
  have m: "a - 1 = mask n" using a by (simp add: mask_eq_exp_minus_1)
  have u1: "unat (a - 1) = unat a - 1" using a0 by (simp add: unat_minus_one)
  have "0 < unat a" using ua by simp
  then have "unat p + unat (a - 1) < 2 ^ LENGTH(64)" using nowrap u1 by simp
  then have "unat (p + (a - 1)) = unat p + unat (a - 1)" by (simp only: unat_add_lem)
  then have s: "unat (p + a - 1) = unat p + unat a - 1" using u1 ua by (simp add: add_diff_eq)
  have "unat ((p + a - 1) AND NOT (mask n)) = (unat (p + a - 1) div 2 ^ n) * 2 ^ n"
    by (rule unat_and_not_mask)
  then show ?thesis using s ua m by (simp add: round_up_def)
qed

lemma unat_align_dvd:
  fixes p a :: "64 word"
  assumes n: "n < 64" and a: "a = 2 ^ n"
  shows "unat a dvd unat ((p + a - 1) AND NOT (a - 1))"
proof -
  have ua: "unat a = 2 ^ n" using n a by (simp add: unat_exp64)
  have m: "a - 1 = mask n" using a by (simp add: mask_eq_exp_minus_1)
  show ?thesis unfolding m ua unat_and_not_mask by simp
qed

lemma multiple_has_room:
  fixes r :: "64 word"
  assumes n: "n < 64" and d: "(2::nat) ^ n dvd unat r"
  shows "unat r + 2 ^ n \<le> 2 ^ 64"
proof -
  from d obtain k where k: "unat r = 2 ^ n * k" ..
  have split: "(2::nat) ^ 64 = 2 ^ n * 2 ^ (64 - n)" using n by (simp flip: power_add)
  have "unat r < 2 ^ 64" using unsigned_less [of r, where ?'a = nat] by simp
  then have "2 ^ n * k < (2::nat) ^ n * 2 ^ (64 - n)" using k split by simp
  then have "k < 2 ^ (64 - n)" by simp
  then have "k + 1 \<le> 2 ^ (64 - n)" by simp
  then have "2 ^ n * (k + 1) \<le> (2::nat) ^ n * 2 ^ (64 - n)" by (rule mult_le_mono2)
  then show ?thesis using k split by simp
qed

lemma align_exp:
  assumes "n < 64" "a = 2 ^ n"
  shows "align p a = Inr ((p + a - 1) AND NOT (a - 1))"
  using exp_imp_assertion [OF assms] by (simp add: align_def)

lemma align_exact:
  assumes n: "n < 64" and a: "a = 2 ^ n" and r: "round_up (unat p) (2 ^ n) < 2 ^ 64"
  shows "\<exists>s. align p a = Inr s \<and> unat s = round_up (unat p) (2 ^ n)"
proof -
  have ua: "unat a = 2 ^ n" using n a by (simp add: unat_exp64)
  have "unat p + unat a \<le> 2 ^ 64" using round_up_representable [OF n r] ua by simp
  then have "unat ((p + a - 1) AND NOT (a - 1)) = round_up (unat p) (unat a)"
    by (rule unat_align_value [OF n a])
  then show ?thesis using align_exp [OF n a] ua by simp
qed

lemma offset_alignment_exp:
  "\<exists>n<64. METAL_CONSTANT_BUFFER_OFFSET_ALIGNMENT tgt = 2 ^ n"
proof (cases tgt)
  case IOS_SIMULATOR
  have "(256 :: 64 word) = 2 ^ 8" by simp
  then show ?thesis using IOS_SIMULATOR by (intro exI [of _ 8]) simp
next
  case IOS_DEVICE
  have "(4 :: 64 word) = 2 ^ 2" by simp
  then show ?thesis using IOS_DEVICE by (intro exI [of _ 2]) simp
next
  case OTHER_TARGET
  have "(32 :: 64 word) = 2 ^ 5" by simp
  then show ?thesis using OTHER_TARGET by (intro exI [of _ 5]) simp
qed

lemma computeSlotSize_exact:
  assumes n: "n < 64" and a: "align_of layout = 2 ^ n"
    and r: "round_up (round_up (unat (size_of layout)) (unat (align_of layout)))
              (unat (METAL_CONSTANT_BUFFER_OFFSET_ALIGNMENT tgt)) < 2 ^ 64"
  shows "\<exists>s. computeSlotSize tgt layout = Inr s \<and>
           unat s = round_up (round_up (unat (size_of layout)) (unat (align_of layout)))
                      (unat (METAL_CONSTANT_BUFFER_OFFSET_ALIGNMENT tgt))"
proof -
  obtain k where k: "k < 64" and c: "METAL_CONSTANT_BUFFER_OFFSET_ALIGNMENT tgt = 2 ^ k"
    using offset_alignment_exp by blast
  have ua: "unat (align_of layout) = 2 ^ n" using n a by (simp add: unat_exp64)
  have uc: "unat (METAL_CONSTANT_BUFFER_OFFSET_ALIGNMENT tgt) = 2 ^ k"
    using k c by (simp add: unat_exp64)
  let ?inner = "round_up (unat (size_of layout)) (2 ^ n)"
  have "?inner \<le> round_up ?inner (2 ^ k)" by (rule round_up_ge) simp
  then have inner: "?inner < 2 ^ 64" using r ua uc by simp
  obtain s where s: "align (size_of layout) (align_of layout) = Inr s" "unat s = ?inner"
    using align_exact [OF n a inner] by blast
  have "round_up (unat s) (2 ^ k) < 2 ^ 64" using r s ua uc by simp
  then obtain s' where "align s (METAL_CONSTANT_BUFFER_OFFSET_ALIGNMENT tgt) = Inr s'"
      "unat s' = round_up (unat s) (2 ^ k)"
    using align_exact [OF k c] by blast
  then show ?thesis using s ua uc by (simp add: computeSlotSize_def)
qed

section \<open>Claims about the alignment helper and the slot size\<close>

text \<open>
  C10, as stated: for every unsigned \<open>p\<close> and every power of two \<open>a\<close>, \<open>align p a\<close> is the
  least multiple of \<open>a\<close> at or above \<open>p\<close>.  The sum \<open>p + alignment - 1\<close> wraps around
  at \<open>2 ^ 64\<close>: for the largest 64-bit value and the alignment 2 the result is 0,
  which is below \<open>p\<close>.
\<close>

theorem align_wraps_counterexample:
  "align 18446744073709551615 2 = Inr 0 \<and> (0 :: 64 word) < 18446744073709551615"
  by (simp add: align_def)

text \<open>
  C10, amended: for every 64-bit \<open>p\<close> and every alignment \<open>2 ^ n\<close> with \<open>n < 64\<close>, the
  assertion of \<open>align\<close> holds and the result is a multiple of the alignment on which
  \<open>align\<close> is idempotent; when \<open>p + alignment\<close> does not exceed \<open>2 ^ 64\<close> (no wrap-around),
  the result is at least \<open>p\<close>, below \<open>p + alignment\<close>, and the least multiple of the
  alignment that is at least \<open>p\<close>.
\<close>

theorem align_least_multiple:
  assumes n: "n < 64" and a: "alignment = 2 ^ n"
  shows "\<exists>r. align p alignment = Inr r
           \<and> unat r mod unat alignment = 0
           \<and> align r alignment = Inr r
           \<and> (unat p + unat alignment \<le> 2 ^ 64 \<longrightarrow>
                unat p \<le> unat r \<and> unat r < unat p + unat alignment
                \<and> (\<forall>m. unat alignment dvd m \<and> unat p \<le> m \<longrightarrow> unat r \<le> m))"
proof -
  let ?r = "(p + alignment - 1) AND NOT (alignment - 1)"
  have ua: "unat alignment = 2 ^ n" using n a by (simp add: unat_exp64)
  have pos: "0 < unat alignment" using ua by simp
  have r: "align p alignment = Inr ?r" by (rule align_exp [OF n a])
  have d: "unat alignment dvd unat ?r" by (rule unat_align_dvd [OF n a])
  have "unat ?r + unat alignment \<le> 2 ^ 64"
    using multiple_has_room [OF n, of ?r] d ua by simp
  then have "unat ((?r + alignment - 1) AND NOT (alignment - 1)) = round_up (unat ?r) (unat alignment)"
    by (rule unat_align_value [OF n a])
  also have "\<dots> = unat ?r" using pos d by (rule round_up_multiple)
  finally have idem: "align ?r alignment = Inr ?r"
    using align_exp [OF n a, of ?r] by (simp add: word_unat_eq_iff)
  have exact: "unat p \<le> unat ?r \<and> unat ?r < unat p + unat alignment
      \<and> (\<forall>m. unat alignment dvd m \<and> unat p \<le> m \<longrightarrow> unat ?r \<le> m)"
    if "unat p + unat alignment \<le> 2 ^ 64"
  proof -
    have v: "unat ?r = round_up (unat p) (unat alignment)"
      using that by (rule unat_align_value [OF n a])
    show ?thesis unfolding v
      using round_up_ge [OF pos] round_up_less [OF pos] round_up_least [OF pos] by blast
  qed
  show ?thesis using r d idem exact by (simp add: mod_eq_0_iff_dvd)
qed

theorem align_least_multiple_witness:
  "(3::nat) < 64 \<and> (8 :: 64 word) = 2 ^ 3 \<and> unat (41 :: 64 word) + unat (8 :: 64 word) \<le> 2 ^ 64
     \<and> align 41 8 = Inr 48 \<and> align 48 8 = Inr 48
     \<and> unat (41 :: 64 word) \<le> unat (48 :: 64 word)"
proof -
  have h1: "(3::nat) < 64" by simp
  have h2: "(8 :: 64 word) = 2 ^ 3" by simp
  have h3: "unat (41 :: 64 word) + unat (8 :: 64 word) \<le> 2 ^ 64" by simp
  have v: "align 41 8 = Inr 48" by (simp add: align_def)
  from align_least_multiple [OF h1 h2, of 41] v h3
  have "align 48 8 = Inr 48 \<and> unat (41 :: 64 word) \<le> unat (48 :: 64 word)" by auto
  with h1 h2 h3 v show ?thesis by blast
qed

text \<open>
  C5, as stated: the slot size is \<open>max(size, alignment)\<close> rounded up to the platform's
  offset alignment.  For the layout of size 65 and alignment 64 on a target whose
  offset alignment is 32, the code yields 128, and the maximum rounded up is 96.
\<close>

theorem computeSlotSize_max_counterexample:
  "computeSlotSize OTHER_TARGET \<lparr>size_of = 65, align_of = 64\<rparr> = Inr 128
     \<and> round_up (max 65 64) 32 = 96"
  by (simp add: computeSlotSize_def align_def round_up_def)

text \<open>
  C5, amended: the slot size is the requested size rounded up to the requested alignment
  (a power of two), and that rounded up to the platform's minimum offset alignment,
  as long as the result is below \<open>2 ^ 64\<close>; for the layout of size 40 and alignment 8
  with the offset alignment 32, the slot size is 64.
\<close>

theorem computeSlotSize_rounds_twice:
  assumes n: "n < 64" and a: "align_of layout = 2 ^ n"
    and r: "round_up (round_up (unat (size_of layout)) (unat (align_of layout)))
              (unat (METAL_CONSTANT_BUFFER_OFFSET_ALIGNMENT tgt)) < 2 ^ 64"
  shows "(\<exists>s. computeSlotSize tgt layout = Inr s \<and>
             unat s = round_up (round_up (unat (size_of layout)) (unat (align_of layout)))
                        (unat (METAL_CONSTANT_BUFFER_OFFSET_ALIGNMENT tgt)))
         \<and> computeSlotSize OTHER_TARGET \<lparr>size_of = 40, align_of = 8\<rparr> = Inr 64"
proof -
  have "computeSlotSize OTHER_TARGET \<lparr>size_of = 40, align_of = 8\<rparr> = Inr 64"
    by (simp add: computeSlotSize_def align_def)
  then show ?thesis using computeSlotSize_exact [OF n a r] by simp
qed

theorem computeSlotSize_rounds_twice_witness:
  "(6::nat) < 64 \<and> align_of \<lparr>size_of = 65, align_of = 64\<rparr> = 2 ^ 6
     \<and> computeSlotSize OTHER_TARGET \<lparr>size_of = 65, align_of = 64\<rparr> = Inr 128
     \<and> round_up (round_up 65 64) 32 = 128"
proof -
  let ?l = "\<lparr>size_of = 65, align_of = 64\<rparr>"
  have h1: "(6::nat) < 64" by simp
  have h2: "align_of ?l = 2 ^ 6" by simp
  have e: "round_up (round_up 65 64) 32 = 128" by (simp add: round_up_def)
  then have h3: "round_up (round_up (unat (size_of ?l)) (unat (align_of ?l)))
              (unat (METAL_CONSTANT_BUFFER_OFFSET_ALIGNMENT OTHER_TARGET)) < 2 ^ 64" by simp
  from computeSlotSize_rounds_twice [OF h1 h2 h3] e
  obtain s where "computeSlotSize OTHER_TARGET ?l = Inr s" "unat s = 128" by auto
  moreover from this(2) have "s = 128" by (simp add: word_unat_eq_iff)
  ultimately show ?thesis using h1 h2 e by simp
qed

text \<open>
  C6, as stated: for every layout, \<open>canAccomodateLayout\<close> answers true exactly when the
  rounded-up size of the layout fits within the slot size.  \<open>computeSlotSize\<close> rounds
  in 64-bit arithmetic, which wraps around: for the layout of size \<open>2 ^ 64 - 1\<close> and
  alignment 1 against the offset alignment 32, no assertion fails, the computed size
  is 0 and the answer is true for a ring of 64-byte slots, while the size rounded up
  is \<open>2 ^ 64\<close> and fits no slot.
\<close>

theorem canAccomodateLayout_wraps_counterexample:
  "canAccomodateLayout OTHER_TARGET
     \<lparr>mBuffer_ring = \<lparr>mBuffer = 1, mType = RING\<rparr>, mAuxBuffer = TrackedMetalBuffer_nil,
      mBufferOptions = 0, mSlotSizeBytes = 64, mSlotCount = 2, mCurrentSlot = 0,
      mOccupiedSlots = 0\<rparr>
     \<lparr>size_of = 18446744073709551615, align_of = 1\<rparr> = Inr True
   \<and> computeSlotSize OTHER_TARGET \<lparr>size_of = 18446744073709551615, align_of = 1\<rparr> = Inr 0
   \<and> round_up (round_up 18446744073709551615 1) 32 = 18446744073709551616
   \<and> \<not> (18446744073709551616 :: nat) \<le> unat (64 :: 64 word)"
  by (simp add: canAccomodateLayout_def computeSlotSize_def align_def round_up_def)

text \<open>
  C6, amended: for every ring buffer and every layout whose alignment is a power of two and
  whose size, rounded up to its alignment and then to the platform's offset alignment,
  is below \<open>2 ^ 64\<close>, \<open>canAccomodateLayout\<close> answers true exactly when that rounded size
  is at most the slot size of the ring; for the layout of size 64 and alignment 16
  against the offset alignment 32 it answers true exactly when the slot size is at
  least 64.
\<close>

theorem canAccomodateLayout_iff:
  assumes n: "n < 64" and a: "align_of layout = 2 ^ n"
    and r: "round_up (round_up (unat (size_of layout)) (unat (align_of layout)))
              (unat (METAL_CONSTANT_BUFFER_OFFSET_ALIGNMENT tgt)) < 2 ^ 64"
  shows "canAccomodateLayout tgt rb layout =
           Inr (round_up (round_up (unat (size_of layout)) (unat (align_of layout)))
                  (unat (METAL_CONSTANT_BUFFER_OFFSET_ALIGNMENT tgt)) \<le> unat (mSlotSizeBytes rb))
         \<and> canAccomodateLayout OTHER_TARGET rb \<lparr>size_of = 64, align_of = 16\<rparr> =
             Inr (64 \<le> mSlotSizeBytes rb)"
proof -
  have "canAccomodateLayout OTHER_TARGET rb \<lparr>size_of = 64, align_of = 16\<rparr> =
          Inr (64 \<le> mSlotSizeBytes rb)"
    by (simp add: canAccomodateLayout_def computeSlotSize_def align_def)
  moreover obtain s where "computeSlotSize tgt layout = Inr s"
      "unat s = round_up (round_up (unat (size_of layout)) (unat (align_of layout)))
                  (unat (METAL_CONSTANT_BUFFER_OFFSET_ALIGNMENT tgt))"
    using computeSlotSize_exact [OF n a r] by blast
  ultimately show ?thesis by (simp add: canAccomodateLayout_def word_le_nat_alt)
qed

theorem canAccomodateLayout_iff_witness:
  "(3::nat) < 64 \<and> align_of \<lparr>size_of = 40, align_of = 8\<rparr> = 2 ^ 3
     \<and> round_up (round_up (unat (size_of \<lparr>size_of = 40, align_of = 8\<rparr>))
                      (unat (align_of \<lparr>size_of = 40, align_of = 8\<rparr>)))
           (unat (METAL_CONSTANT_BUFFER_OFFSET_ALIGNMENT OTHER_TARGET)) < 2 ^ 64
     \<and> canAccomodateLayout OTHER_TARGET
          \<lparr>mBuffer_ring = \<lparr>mBuffer = 1, mType = RING\<rparr>, mAuxBuffer = TrackedMetalBuffer_nil,
           mBufferOptions = 0, mSlotSizeBytes = 64, mSlotCount = 2, mCurrentSlot = 0,
           mOccupiedSlots = 0\<rparr> \<lparr>size_of = 40, align_of = 8\<rparr> = Inr True"
proof -
  let ?l = "\<lparr>size_of = 40, align_of = 8\<rparr>"
  have h1: "(3::nat) < 64" by simp
  have h2: "align_of ?l = 2 ^ 3" by simp
  have e: "round_up (round_up 40 8) 32 = 64" by (simp add: round_up_def)
  then have h3: "round_up (round_up (unat (size_of ?l)) (unat (align_of ?l)))
              (unat (METAL_CONSTANT_BUFFER_OFFSET_ALIGNMENT OTHER_TARGET)) < 2 ^ 64" by simp
  show ?thesis using canAccomodateLayout_iff [OF h1 h2 h3] e h1 h2 h3 by simp
qed

section \<open>Claims about tracked buffers\<close>

lemma getAliveBuffers_sum:
  "getAliveBuffers t = aliveBuffers t 0 + aliveBuffers t 1 + aliveBuffers t 2"
  by (simp add: getAliveBuffers_def TypeCount_def upt_conv_Cons numeral_2_eq_2)

lemma toIndex_cases:
  "ty \<noteq> NONE \<Longrightarrow> \<exists>i<3. toIndex ty = Inr i"
  by (cases ty) auto

lemma toIndex_inj: "toIndex ty = Inr i \<Longrightarrow> toIndex ty' = Inr i \<Longrightarrow> ty = ty'"
  by (cases ty; cases ty') auto

lemma new_result:
  assumes "ty \<noteq> NONE" "buffer \<noteq> 0" "toIndex ty = Inr i"
  shows "\<exists>t'. TrackedMetalBuffer_new buffer ty t = Inr (\<lparr>mBuffer = buffer, mType = ty\<rparr>, t')
           \<and> aliveBuffers t' = (aliveBuffers t)(i := aliveBuffers t i + 1)
           \<and> platform t' = platform t
           \<and> statsReported t' =
               (if EXCESS_BUFFER_COUNT \<le> getAliveBuffers t'
                   \<and> (\<exists>p. platform t = Some p \<and> hasDebugUpdateStatFunc p)
                then statsReported t @ [(''filament.metal.excess_buffers_allocated'', getAliveBuffers t')]
                else statsReported t)"
  using assms
  by (auto simp: TrackedMetalBuffer_new_def Let_def debugUpdateStat_def getAliveBuffers_sum
      split: option.splits)

lemma new_nil_result:
  assumes "ty \<noteq> NONE"
  shows "TrackedMetalBuffer_new 0 ty t = Inr (\<lparr>mBuffer = 0, mType = ty\<rparr>, t)"
  using assms by (simp add: TrackedMetalBuffer_new_def)

lemma new_Inr:
  assumes "TrackedMetalBuffer_new buffer ty t = Inr (b, t')"
  shows "ty \<noteq> NONE \<and> b = \<lparr>mBuffer = buffer, mType = ty\<rparr>"
  using assms
  by (auto simp: TrackedMetalBuffer_new_def Let_def split: if_splits sum.splits)

lemma delete_result:
  assumes "mBuffer b \<noteq> 0" "toIndex (mType b) = Inr i"
  shows "TrackedMetalBuffer_delete b t =
           Inr (t\<lparr>aliveBuffers := (aliveBuffers t)(i := aliveBuffers t i - 1)\<rparr>)"
  using assms by (simp add: TrackedMetalBuffer_delete_def)

lemma delete_nil_result: "mBuffer b = 0 \<Longrightarrow> TrackedMetalBuffer_delete b t = Inr t"
  by (simp add: TrackedMetalBuffer_delete_def)


lemma alive_count_append:
  "alive_count ty (objs @ [b]) = alive_count ty objs + (if counted ty b then 1 else 0)"
  by (simp add: alive_count_def)

lemma alive_count_remove:
  assumes "i < length objs"
  shows "alive_count ty objs =
           alive_count ty (take i objs @ drop (Suc i) objs) + (if counted ty (objs ! i) then 1 else 0)"
proof -
  have "alive_count ty objs = alive_count ty (take i objs @ objs ! i # drop (Suc i) objs)"
    using id_take_nth_drop [OF assms] by simp
  then show ?thesis by (simp add: alive_count_def)
qed

lemma alive_count_swap:
  assumes "i < length objs" "j < length objs"
  shows "alive_count ty ((objs[i := objs ! j])[j := objs ! i]) = alive_count ty objs"
proof -
  have "mset ((objs[i := objs ! j])[j := objs ! i]) = mset objs"
    using assms by (simp add: mset_swap)
  then have "mset (filter (counted ty) ((objs[i := objs ! j])[j := objs ! i]))
      = mset (filter (counted ty) objs)" by (simp only: mset_filter)
  then show ?thesis unfolding alive_count_def by (rule mset_eq_length)
qed

lemma set_swap:
  assumes "i < length objs" "j < length objs"
  shows "set ((objs[i := objs ! j])[j := objs ! i]) = set objs"
proof -
  have "mset ((objs[i := objs ! j])[j := objs ! i]) = mset objs"
    using assms by (simp add: mset_swap)
  then show ?thesis by (rule mset_eq_setD)
qed

lemma inv_new:
  assumes "TrackedMetalBuffer_new buffer ty t = Inr (b, t')" "tracked_inv objs t"
  shows "tracked_inv (objs @ [b]) t'"
proof -
  have ty: "ty \<noteq> NONE" and b: "b = \<lparr>mBuffer = buffer, mType = ty\<rparr>"
    using new_Inr [OF assms(1)] by simp_all
  show ?thesis
  proof (cases "buffer = 0")
    case True
    then have "t' = t" using assms(1) ty by (simp add: new_nil_result)
    then show ?thesis using assms(2) True b
      by (simp add: tracked_inv_def alive_count_append counted_def)
  next
    case False
    obtain i where i: "toIndex ty = Inr i" using toIndex_cases [OF ty] by blast
    obtain t'' where "TrackedMetalBuffer_new buffer ty t = Inr (b, t'')"
        and a: "aliveBuffers t'' = (aliveBuffers t)(i := aliveBuffers t i + 1)"
      using new_result [OF ty False i, of t] b by blast
    then have a': "aliveBuffers t' = (aliveBuffers t)(i := aliveBuffers t i + 1)"
      using assms(1) by simp
    show ?thesis using assms(2) i ty False
      by (cases ty) (auto simp: tracked_inv_def alive_count_append counted_def a' b)
  qed
qed

lemma inv_delete:
  assumes "i < length objs" "TrackedMetalBuffer_delete (objs ! i) t = Inr t'" "tracked_inv objs t"
  shows "tracked_inv (take i objs @ drop (Suc i) objs) t'"
proof -
  let ?b = "objs ! i" and ?rest = "take i objs @ drop (Suc i) objs"
  have sub: "set ?rest \<subseteq> set objs"
    by (auto dest: in_set_takeD in_set_dropD)
  have cnt: "\<And>ty. alive_count ty objs = alive_count ty ?rest + (if counted ty ?b then 1 else 0)"
    using assms(1) by (rule alive_count_remove)
  show ?thesis
  proof (cases "mBuffer ?b = 0")
    case True
    then have "t' = t" using assms(2) by (simp add: delete_nil_result)
    then show ?thesis using assms(3) sub True
      by (auto simp: tracked_inv_def cnt counted_def)
  next
    case False
    then obtain k where k: "toIndex (mType ?b) = Inr k"
      using assms(2) by (auto simp: TrackedMetalBuffer_delete_def split: sum.splits)
    have t': "t' = t\<lparr>aliveBuffers := (aliveBuffers t)(k := aliveBuffers t k - 1)\<rparr>"
      using delete_result [OF False k, of t] assms(2) by simp
    show ?thesis using assms(3) sub False k
      by (cases "mType ?b") (auto simp: tracked_inv_def cnt counted_def t')
  qed
qed

lemma step_inv:
  assumes "tracked_step ev (objs, t) = Inr (objs', t')" "tracked_inv objs t"
  shows "tracked_inv objs' t'"
proof (cases ev)
  case (New buffer ty)
  then show ?thesis using assms inv_new by (auto split: sum.splits)
next
  case NewNil
  then show ?thesis using assms
    by (auto simp: tracked_inv_def alive_count_append counted_def TrackedMetalBuffer_nil_def)
next
  case (Delete i)
  then show ?thesis using assms inv_delete by (auto split: sum.splits if_splits)
next
  case (MoveAssign i j)
  then have ij: "i < length objs" "j < length objs"
    and o: "objs' = (objs[i := objs ! j])[j := objs ! i]" and t: "t' = t"
    using assms(1) by (auto simp: swap_tracked_def split: if_splits)
  show ?thesis using assms(2) unfolding o t tracked_inv_def
    by (simp add: alive_count_swap [OF ij] set_swap [OF ij])
qed

lemma run_inv:
  "tracked_run evs (objs, t) = Inr (objs', t') \<Longrightarrow> tracked_inv objs t \<Longrightarrow> tracked_inv objs' t'"
proof (induction evs arbitrary: objs t)
  case Nil
  then show ?case by simp
next
  case (Cons ev evs)
  then obtain objs1 t1 where s: "tracked_step ev (objs, t) = Inr (objs1, t1)"
      and r: "tracked_run evs (objs1, t1) = Inr (objs', t')"
    by (auto split: sum.splits)
  show ?case using Cons.IH [OF r] step_inv [OF s Cons.prems(2)] by simp
qed


lemma run_balance:
  "tracked_run evs (objs, t) = Inr (objs', t') \<Longrightarrow>
     alive_count ty objs' + destructions ty evs objs = alive_count ty objs + constructions ty evs"
proof (induction evs arbitrary: objs t)
  case Nil
  then show ?case by simp
next
  case (Cons ev evs)
  then obtain objs1 t1 where s: "tracked_step ev (objs, t) = Inr (objs1, t1)"
      and r: "tracked_run evs (objs1, t1) = Inr (objs', t')"
    by (auto split: sum.splits)
  note IH = Cons.IH [OF r]
  show ?case
  proof (cases ev)
    case (New buffer ty')
    then have "objs1 = objs @ [\<lparr>mBuffer = buffer, mType = ty'\<rparr>]"
      using s new_Inr by (auto split: sum.splits)
    then show ?thesis using IH New by (simp add: alive_count_append counted_def)
  next
    case NewNil
    then have "objs1 = objs @ [TrackedMetalBuffer_nil]" using s by simp
    then show ?thesis using IH NewNil
      by (simp add: alive_count_append counted_def TrackedMetalBuffer_nil_def)
  next
    case (Delete i)
    then have i: "i < length objs" and o: "objs1 = take i objs @ drop (Suc i) objs"
      using s by (auto split: if_splits sum.splits)
    show ?thesis using IH Delete i alive_count_remove [OF i, of ty] unfolding o by simp
  next
    case (MoveAssign i j)
    then have ij: "i < length objs" "j < length objs"
      and o: "objs1 = (objs[i := objs ! j])[j := objs ! i]"
      using s by (auto simp: swap_tracked_def split: if_splits)
    show ?thesis using IH MoveAssign ij alive_count_swap [OF ij, of ty] unfolding o by simp
  qed
qed

lemma delete_all:
  "tracked_inv objs t \<Longrightarrow>
     \<exists>t'. tracked_run (replicate (length objs) (Delete 0)) (objs, t) = Inr ([], t')
          \<and> tracked_inv [] t'"
proof (induction objs arbitrary: t)
  case Nil
  then show ?case by simp
next
  case (Cons b objs)
  have "\<exists>t1. TrackedMetalBuffer_delete b t = Inr t1"
  proof (cases "mBuffer b = 0")
    case True
    then show ?thesis by (simp add: delete_nil_result)
  next
    case False
    then have "mType b \<noteq> NONE" using Cons.prems by (simp add: tracked_inv_def)
    then obtain i where "toIndex (mType b) = Inr i" using toIndex_cases by blast
    then show ?thesis using False by (simp add: delete_result)
  qed
  then obtain t1 where d: "TrackedMetalBuffer_delete ((b # objs) ! 0) t = Inr t1" by auto
  have "tracked_inv (take 0 (b # objs) @ drop (Suc 0) (b # objs)) t1"
    using inv_delete [OF _ d Cons.prems] by simp
  then have inv1: "tracked_inv objs t1" by simp
  obtain t' where "tracked_run (replicate (length objs) (Delete 0)) (objs, t1) = Inr ([], t')"
      "tracked_inv [] t'"
    using Cons.IH [OF inv1] by blast
  then show ?case using d by simp
qed

lemma start_inv: "tracked_inv [] (tracker_start p)"
  by (simp add: tracked_inv_def tracker_start_def alive_count_def)

text \<open>
  C7: for every category (\<open>GENERIC\<close>, \<open>RING\<close>, \<open>STAGING\<close>), constructing a tracked buffer
  with a non-nil handle adds one to the counter of that category and leaves the other
  counters alone; destroying a tracked buffer takes one off exactly when its handle is
  not nil; after any history since the start of the process, the counter of a category
  is the number of constructions with a non-nil handle minus the number of
  destructions of such objects of that category; destroying every object still alive
  brings the total back to 0.
\<close>

theorem alive_counter_accounting:
  assumes ty: "ty \<noteq> NONE"
  shows "(buffer \<noteq> 0 \<longrightarrow>
            (\<exists>b t'. TrackedMetalBuffer_new buffer ty t = Inr (b, t')
               \<and> mBuffer b = buffer \<and> mType b = ty
               \<and> (\<exists>c. getAliveBuffersOf ty t = Inr c \<and> getAliveBuffersOf ty t' = Inr (c + 1))
               \<and> (\<forall>ty'. ty' \<noteq> ty \<and> ty' \<noteq> NONE \<longrightarrow> getAliveBuffersOf ty' t' = getAliveBuffersOf ty' t)))
       \<and> (\<exists>t'. TrackedMetalBuffer_delete \<lparr>mBuffer = buffer, mType = ty\<rparr> t = Inr t'
               \<and> (\<exists>c. getAliveBuffersOf ty t = Inr c
                     \<and> getAliveBuffersOf ty t' = Inr (if buffer \<noteq> 0 then c - 1 else c))
               \<and> (\<forall>ty'. ty' \<noteq> ty \<and> ty' \<noteq> NONE \<longrightarrow> getAliveBuffersOf ty' t' = getAliveBuffersOf ty' t))
       \<and> (\<forall>evs objs t'. tracked_run evs ([], tracker_start p) = Inr (objs, t') \<longrightarrow>
             destructions ty evs [] \<le> constructions ty evs
             \<and> getAliveBuffersOf ty t' =
                 Inr (of_nat (constructions ty evs - destructions ty evs []))
             \<and> (\<exists>t''. tracked_run (replicate (length objs) (Delete 0)) (objs, t') = Inr ([], t'')
                    \<and> getAliveBuffers t'' = 0))"
proof (intro conjI impI allI)
  obtain i where i: "toIndex ty = Inr i" using toIndex_cases [OF ty] by blast
  have other: "\<And>ty' k. ty' \<noteq> ty \<Longrightarrow> toIndex ty' = Inr k \<Longrightarrow> k \<noteq> i"
    using i toIndex_inj by blast
  {
    assume nz: "buffer \<noteq> 0"
    obtain t' where n: "TrackedMetalBuffer_new buffer ty t = Inr (\<lparr>mBuffer = buffer, mType = ty\<rparr>, t')"
      and a: "aliveBuffers t' = (aliveBuffers t)(i := aliveBuffers t i + 1)"
      using new_result [OF ty nz i, of t] by blast
    have "\<forall>ty'. ty' \<noteq> ty \<and> ty' \<noteq> NONE \<longrightarrow> getAliveBuffersOf ty' t' = getAliveBuffersOf ty' t"
      using a other by (auto simp: getAliveBuffersOf_def split: sum.splits)
    then show "\<exists>b t'. TrackedMetalBuffer_new buffer ty t = Inr (b, t')
               \<and> mBuffer b = buffer \<and> mType b = ty
               \<and> (\<exists>c. getAliveBuffersOf ty t = Inr c \<and> getAliveBuffersOf ty t' = Inr (c + 1))
               \<and> (\<forall>ty'. ty' \<noteq> ty \<and> ty' \<noteq> NONE \<longrightarrow> getAliveBuffersOf ty' t' = getAliveBuffersOf ty' t)"
      using n a i by (simp add: getAliveBuffersOf_def)
  }
  show "\<exists>t'. TrackedMetalBuffer_delete \<lparr>mBuffer = buffer, mType = ty\<rparr> t = Inr t'
               \<and> (\<exists>c. getAliveBuffersOf ty t = Inr c
                     \<and> getAliveBuffersOf ty t' = Inr (if buffer \<noteq> 0 then c - 1 else c))
               \<and> (\<forall>ty'. ty' \<noteq> ty \<and> ty' \<noteq> NONE \<longrightarrow> getAliveBuffersOf ty' t' = getAliveBuffersOf ty' t)"
    using i other
    by (cases "buffer = 0")
       (auto simp: delete_nil_result delete_result getAliveBuffersOf_def split: sum.splits)
  {
    fix evs objs t'
    assume run: "tracked_run evs ([], tracker_start p) = Inr (objs, t')"
    have inv: "tracked_inv objs t'" using run_inv [OF run start_inv] .
    have bal: "alive_count ty objs + destructions ty evs [] = constructions ty evs"
      using run_balance [OF run, of ty] by (simp add: alive_count_def)
    then show "destructions ty evs [] \<le> constructions ty evs" by simp
    have "aliveBuffers t' i = of_nat (alive_count ty objs)"
      using inv i ty by (cases ty) (auto simp: tracked_inv_def)
    moreover have "alive_count ty objs = constructions ty evs - destructions ty evs []"
      using bal by simp
    ultimately show "getAliveBuffersOf ty t' =
        Inr (of_nat (constructions ty evs - destructions ty evs []))"
      using i by (simp add: getAliveBuffersOf_def)
    obtain t'' where "tracked_run (replicate (length objs) (Delete 0)) (objs, t') = Inr ([], t'')"
        "tracked_inv [] t''"
      using delete_all [OF inv] by blast
    then show "\<exists>t''. tracked_run (replicate (length objs) (Delete 0)) (objs, t') = Inr ([], t'')
                    \<and> getAliveBuffers t'' = 0"
      by (auto simp: tracked_inv_def getAliveBuffers_sum alive_count_def)
  }
qed


theorem alive_counter_accounting_witness:
  "RING \<noteq> NONE
   \<and> tracked_run [New 5 RING, NewNil, New 6 RING, Delete 0] ([], tracker_start None) =
       Inr ([TrackedMetalBuffer_nil, \<lparr>mBuffer = 6, mType = RING\<rparr>],
            \<lparr>aliveBuffers = (\<lambda>_. 0)(1 := 1), platform = None, statsReported = []\<rparr>)
   \<and> constructions RING [New 5 RING, NewNil, New 6 RING, Delete 0] = 2
   \<and> destructions RING [New 5 RING, NewNil, New 6 RING, Delete 0] [] = 1
   \<and> getAliveBuffersOf RING \<lparr>aliveBuffers = (\<lambda>_. 0)(1 := 1), platform = None, statsReported = []\<rparr>
       = Inr 1"
proof -
  let ?evs = "[New 5 RING, NewNil, New 6 RING, Delete 0]"
  let ?t = "\<lparr>aliveBuffers = (\<lambda>_. 0)(1 := 1), platform = None, statsReported = []\<rparr>"
  have h: "RING \<noteq> NONE" by simp
  have run: "tracked_run ?evs ([], tracker_start None) =
      Inr ([TrackedMetalBuffer_nil, \<lparr>mBuffer = 6, mType = RING\<rparr>], ?t)"
    by (simp add: tracker_start_def TrackedMetalBuffer_new_def TrackedMetalBuffer_delete_def
        TrackedMetalBuffer_nil_def getAliveBuffers_def TypeCount_def EXCESS_BUFFER_COUNT_def
        upt_conv_Cons Let_def word_le_nat_alt numeral_2_eq_2)
  have c: "constructions RING ?evs = 2" by simp
  have d: "destructions RING ?evs [] = 1" by (simp add: counted_def TrackedMetalBuffer_nil_def)
  from alive_counter_accounting [OF h, of 5 "tracker_start None" None] run
  have "getAliveBuffersOf RING ?t = Inr (of_nat (constructions RING ?evs - destructions RING ?evs []))"
    by blast
  then have "getAliveBuffersOf RING ?t = Inr 1" unfolding c d by simp
  then show ?thesis using h run c d by blast
qed

text \<open>The list of reports is only written: no operation on tracked buffers reads it.\<close>

lemma new_ignores_reports:
  "map_sum id (\<lambda>(b, u). (b, aliveBuffers u)) (TrackedMetalBuffer_new buffer ty (t\<lparr>statsReported := s\<rparr>))
     = map_sum id (\<lambda>(b, u). (b, aliveBuffers u)) (TrackedMetalBuffer_new buffer ty t)"
  by (auto simp: TrackedMetalBuffer_new_def Let_def debugUpdateStat_def getAliveBuffers_sum
      split: option.splits sum.splits)

lemma delete_ignores_reports:
  "map_sum id aliveBuffers (TrackedMetalBuffer_delete b (t\<lparr>statsReported := s\<rparr>))
     = map_sum id aliveBuffers (TrackedMetalBuffer_delete b t)"
  by (auto simp: TrackedMetalBuffer_delete_def split: sum.splits)

text \<open>
  C8, as stated: a construction with a non-nil handle reports the excess-allocation event
  if and only if the running total is at least 30000.  The report is guarded by
  \<open>platform && platform->hasDebugUpdateStatFunc()\<close>: with no platform set, the
  construction that brings the total to 30000 reports nothing.
\<close>

theorem excess_report_unguarded_counterexample:
  "map_sum id (\<lambda>(b, t'). (getAliveBuffers t', statsReported t'))
     (TrackedMetalBuffer_new 1 GENERIC
        \<lparr>aliveBuffers = (\<lambda>_. 0)(0 := 29999), platform = None, statsReported = []\<rparr>)
   = Inr (30000, [])"
  by (simp add: TrackedMetalBuffer_new_def getAliveBuffers_sum EXCESS_BUFFER_COUNT_def word_le_nat_alt)

text \<open>
  C8, amended: a construction with a non-nil handle reports the excess-allocation event,
  with the running total as its value, if and only if that total (the new buffer
  included) is at least 30000 and a platform with a debug statistics function is set;
  this holds for every such construction, whatever was reported before.  The report
  changes nothing else: the object built and the tracker, the list of reports apart,
  are what they are without it, and the later constructions and destructions build
  the same objects and counters whatever the list of reports holds.
\<close>

theorem excess_report_iff:
  assumes ty: "ty \<noteq> NONE" and nz: "buffer \<noteq> 0"
  shows "\<exists>b t' i. TrackedMetalBuffer_new buffer ty t = Inr (b, t')
           \<and> toIndex ty = Inr i
           \<and> getAliveBuffers t' = getAliveBuffers t + 1
           \<and> statsReported t' =
               (if EXCESS_BUFFER_COUNT \<le> getAliveBuffers t'
                   \<and> (\<exists>p. platform t = Some p \<and> hasDebugUpdateStatFunc p)
                then statsReported t @ [(''filament.metal.excess_buffers_allocated'', getAliveBuffers t')]
                else statsReported t)
           \<and> b = \<lparr>mBuffer = buffer, mType = ty\<rparr>
           \<and> t'\<lparr>statsReported := statsReported t\<rparr> =
               t\<lparr>aliveBuffers := (aliveBuffers t)(i := aliveBuffers t i + 1)\<rparr>
           \<and> (\<forall>s buffer' ty'.
                 map_sum id (\<lambda>(b, u). (b, aliveBuffers u))
                   (TrackedMetalBuffer_new buffer' ty' (t'\<lparr>statsReported := s\<rparr>))
                 = map_sum id (\<lambda>(b, u). (b, aliveBuffers u))
                     (TrackedMetalBuffer_new buffer' ty' t'))
           \<and> (\<forall>s b'.
                 map_sum id aliveBuffers (TrackedMetalBuffer_delete b' (t'\<lparr>statsReported := s\<rparr>))
                 = map_sum id aliveBuffers (TrackedMetalBuffer_delete b' t'))"
proof -
  obtain i where i3: "i < 3" and i: "toIndex ty = Inr i" using toIndex_cases [OF ty] by blast
  obtain t' where n: "TrackedMetalBuffer_new buffer ty t = Inr (\<lparr>mBuffer = buffer, mType = ty\<rparr>, t')"
    and a: "aliveBuffers t' = (aliveBuffers t)(i := aliveBuffers t i + 1)"
    and p: "platform t' = platform t"
    and s: "statsReported t' =
               (if EXCESS_BUFFER_COUNT \<le> getAliveBuffers t'
                   \<and> (\<exists>p. platform t = Some p \<and> hasDebugUpdateStatFunc p)
                then statsReported t @ [(''filament.metal.excess_buffers_allocated'', getAliveBuffers t')]
                else statsReported t)"
    using new_result [OF ty nz i, of t] by blast
  have "i = 0 \<or> i = 1 \<or> i = 2" using i3 by auto
  then have total: "getAliveBuffers t' = getAliveBuffers t + 1"
    using a by (auto simp: getAliveBuffers_sum)
  have "t'\<lparr>statsReported := statsReported t\<rparr> =
          t\<lparr>aliveBuffers := (aliveBuffers t)(i := aliveBuffers t i + 1)\<rparr>"
    using a p by (cases t; cases t') simp
  then show ?thesis using n i total s new_ignores_reports delete_ignores_reports by blast
qed

theorem excess_report_iff_witness:
  "GENERIC \<noteq> NONE \<and> (1::nat) \<noteq> 0
   \<and> map_sum id (\<lambda>(b, t'). (getAliveBuffers t', statsReported t'))
       (TrackedMetalBuffer_new 1 GENERIC
          \<lparr>aliveBuffers = (\<lambda>_. 0)(0 := 30000),
           platform = Some \<lparr>hasDebugUpdateStatFunc = True\<rparr>, statsReported = []\<rparr>)
     = Inr (30001, [(''filament.metal.excess_buffers_allocated'', 30001)])"
proof -
  let ?t = "\<lparr>aliveBuffers = (\<lambda>_. 0)(0 := 30000),
           platform = Some \<lparr>hasDebugUpdateStatFunc = True\<rparr>, statsReported = []\<rparr>"
  have h1: "GENERIC \<noteq> NONE" and h2: "(1::nat) \<noteq> 0" by simp_all
  have g: "getAliveBuffers ?t = (30000 :: 64 word)" by (simp add: getAliveBuffers_sum)
  from excess_report_iff [OF h1 h2, of ?t]
  obtain b t' where "TrackedMetalBuffer_new 1 GENERIC ?t = Inr (b, t')"
    "getAliveBuffers t' = getAliveBuffers ?t + 1"
    "statsReported t' =
               (if EXCESS_BUFFER_COUNT \<le> getAliveBuffers t'
                   \<and> (\<exists>p. platform ?t = Some p \<and> hasDebugUpdateStatFunc p)
                then statsReported ?t @ [(''filament.metal.excess_buffers_allocated'', getAliveBuffers t')]
                else statsReported ?t)"
    by blast
  then show ?thesis using h1 h2 unfolding g by (simp add: EXCESS_BUFFER_COUNT_def word_le_nat_alt)
qed


section \<open>Claims about the ring buffer\<close>

lemma unat_succ_less:
  fixes c n :: "64 word"
  assumes "c < n"
  shows "unat (c + 1) = Suc (unat c)"
proof -
  have "unat c < unat n" using assms by (simp add: word_less_nat_alt)
  moreover have "unat n < 2 ^ LENGTH(64)" by (rule unsigned_less)
  ultimately have "unat c + unat (1 :: 64 word) < 2 ^ LENGTH(64)" by simp
  then have "unat (c + 1) = unat c + unat (1 :: 64 word)" by (simp only: unat_add_lem)
  then show ?thesis by simp
qed

lemma assign_tracked_result:
  assumes h: "buffer \<noteq> 0" and old: "mBuffer lhs \<noteq> 0 \<longrightarrow> mType lhs \<noteq> NONE"
  shows "\<exists>t'. assign_tracked lhs buffer RING t = Inr (\<lparr>mBuffer = buffer, mType = RING\<rparr>, t')"
proof -
  obtain t1 where n: "TrackedMetalBuffer_new buffer RING t = Inr (\<lparr>mBuffer = buffer, mType = RING\<rparr>, t1)"
    using new_result [of RING buffer 1 t] h by auto
  have "\<exists>t2. TrackedMetalBuffer_delete lhs t1 = Inr t2"
  proof (cases "mBuffer lhs = 0")
    case True
    then show ?thesis by (simp add: delete_nil_result)
  next
    case False
    then obtain i where "toIndex (mType lhs) = Inr i" using old toIndex_cases by blast
    then show ?thesis using False by (simp add: delete_result)
  qed
  then show ?thesis using n by (auto simp: assign_tracked_def swap_tracked_def)
qed

lemma assign_tracked_refused:
  assumes "assign_tracked lhs 0 RING t = Inr (b, t')"
  shows "mBuffer b = 0"
  using assms
  by (auto simp: assign_tracked_def swap_tracked_def new_nil_result split: sum.splits)

lemma assign_nil_result:
  assumes "mBuffer lhs \<noteq> 0 \<longrightarrow> mType lhs \<noteq> NONE"
  shows "\<exists>t'. assign_nil lhs t = Inr (TrackedMetalBuffer_nil, t')"
proof (cases "mBuffer lhs = 0")
  case True
  then show ?thesis by (simp add: assign_nil_def swap_tracked_def delete_nil_result)
next
  case False
  then obtain i where "toIndex (mType lhs) = Inr i" using assms toIndex_cases by blast
  then show ?thesis using False by (simp add: assign_nil_def swap_tracked_def delete_result)
qed

text \<open>The three paths of \<open>createNewAllocation\<close>.\<close>

lemma create_slot_registers:
  assumes c: "counters w (mOccupiedSlots rb) = Some c" and lt: "c < mSlotCount rb"
    and aux: "mBuffer (mAuxBuffer rb) = 0"
  shows "createNewAllocation cmd rb w =
           Inr ((mBuffer (mBuffer_ring rb),
                 ((mCurrentSlot rb + 1) mod mSlotCount rb) * mSlotSizeBytes rb),
                rb\<lparr>mCurrentSlot := (mCurrentSlot rb + 1) mod mSlotCount rb\<rparr>,
                w\<lparr>counters := (counters w)(mOccupiedSlots rb \<mapsto> c + 1),
                  completedHandlers := completedHandlers w @ [(cmd, mOccupiedSlots rb)]\<rparr>)"
proof -
  have "c \<noteq> mSlotCount rb" "c \<le> mSlotCount rb" using lt by auto
  then show ?thesis using c aux
    by (simp add: createNewAllocation_def fetch_add_def addCompletedHandler_def
        getCurrentAllocation_def Let_def)
qed

lemma create_slot_discards:
  assumes c: "counters w (mOccupiedSlots rb) = Some c" and lt: "c < mSlotCount rb"
    and aux: "mBuffer (mAuxBuffer rb) \<noteq> 0" and ty: "mType (mAuxBuffer rb) \<noteq> NONE"
  shows "\<exists>t'. createNewAllocation cmd rb w =
           Inr ((mBuffer (mBuffer_ring rb),
                 ((mCurrentSlot rb + 1) mod mSlotCount rb) * mSlotSizeBytes rb),
                rb\<lparr>mCurrentSlot := (mCurrentSlot rb + 1) mod mSlotCount rb,
                   mAuxBuffer := TrackedMetalBuffer_nil\<rparr>,
                w\<lparr>counters := (counters w)(mOccupiedSlots rb \<mapsto> c + 1), trackerOf := t'\<rparr>)
          \<and> TrackedMetalBuffer_delete (mAuxBuffer rb) (trackerOf w) = Inr t'"
proof -
  obtain i where i: "toIndex (mType (mAuxBuffer rb)) = Inr i" using ty toIndex_cases by blast
  have "c \<noteq> mSlotCount rb" "c \<le> mSlotCount rb" using lt by auto
  then show ?thesis using c aux i
    by (simp add: createNewAllocation_def fetch_add_def assign_nil_def swap_tracked_def
        delete_result getCurrentAllocation_def Let_def TrackedMetalBuffer_nil_def)
qed

lemma create_overflow:
  assumes c: "counters w (mOccupiedSlots rb) = Some (mSlotCount rb)"
    and g: "grants (device w) (requests (device w)) (mSlotSizeBytes rb)"
    and ty: "mBuffer (mAuxBuffer rb) \<noteq> 0 \<longrightarrow> mType (mAuxBuffer rb) \<noteq> NONE"
  shows "\<exists>t'. createNewAllocation cmd rb w =
           Inr ((Suc (requests (device w)), 0),
                rb\<lparr>mAuxBuffer := \<lparr>mBuffer = Suc (requests (device w)), mType = RING\<rparr>\<rparr>,
                w\<lparr>device := (device w)\<lparr>requests := Suc (requests (device w))\<rparr>, trackerOf := t'\<rparr>)"
proof -
  obtain t' where "assign_tracked (mAuxBuffer rb) (Suc (requests (device w))) RING (trackerOf w)
      = Inr (\<lparr>mBuffer = Suc (requests (device w)), mType = RING\<rparr>, t')"
    using assign_tracked_result [OF _ ty] by blast
  then show ?thesis using c g
    by (intro exI [of _ t']) (simp add: createNewAllocation_def newBufferWithLength_def)
qed



lemma ring_new_result:
  assumes "MetalRingBuffer_new tgt opts layout N w = Inr (rb, w0)"
  shows "computeSlotSize tgt layout = Inr (mSlotSizeBytes rb)
       \<and> rb = \<lparr>mBuffer_ring = \<lparr>mBuffer = Suc (requests (device w)), mType = RING\<rparr>,
                mAuxBuffer = TrackedMetalBuffer_nil, mBufferOptions = opts,
                mSlotSizeBytes = mSlotSizeBytes rb, mSlotCount = N, mCurrentSlot = 0,
                mOccupiedSlots = nextCounter w\<rparr>
       \<and> counters w0 = (counters w)(nextCounter w \<mapsto> 1)
       \<and> nextCounter w0 = Suc (nextCounter w)
       \<and> device w0 = (device w)\<lparr>requests := Suc (requests (device w))\<rparr>
       \<and> completedHandlers w0 = completedHandlers w"
proof -
  obtain s where s: "computeSlotSize tgt layout = Inr s"
    using assms by (auto simp: MetalRingBuffer_new_def split: sum.splits)
  show ?thesis
  proof (cases "grants (device w) (requests (device w)) (s * N)")
    case True
    obtain t' where "assign_tracked TrackedMetalBuffer_nil (Suc (requests (device w))) RING (trackerOf w)
        = Inr (\<lparr>mBuffer = Suc (requests (device w)), mType = RING\<rparr>, t')"
      using assign_tracked_result [of "Suc (requests (device w))" TrackedMetalBuffer_nil]
      by (auto simp: TrackedMetalBuffer_nil_def)
    then show ?thesis using assms s True
      by (auto simp: MetalRingBuffer_new_def newBufferWithLength_def Let_def)
  next
    case False
    then show ?thesis using assms s assign_tracked_refused
      by (auto simp: MetalRingBuffer_new_def newBufferWithLength_def Let_def split: sum.splits if_splits)
  qed
qed


lemma ring_run_append:
  "ring_run (evs1 @ evs2) s =
     (case ring_run evs1 s of
        Inl e \<Rightarrow> Inl e
      | Inr (ps, s1) \<Rightarrow>
          (case ring_run evs2 s1 of Inl e \<Rightarrow> Inl e | Inr (qs, s2) \<Rightarrow> Inr (ps @ qs, s2)))"
proof (induction evs1 arbitrary: s)
  case Nil
  then show ?case by (cases s) (auto split: sum.splits)
next
  case (Cons ev evs1)
  obtain rb w where s: "s = (rb, w)" by (cases s)
  show ?case
  proof (cases ev)
    case (NewAllocation c)
    then show ?thesis using Cons.IH s by (auto split: sum.splits)
  next
    case (Completed c)
    then show ?thesis using Cons.IH s by simp
  qed
qed

lemma word_succ_mod:
  fixes x n :: "64 word"
  assumes "Suc (unat x) < unat n"
  shows "(x + 1) mod n = x + 1" and "unat (x + 1) = Suc (unat x)"
proof -
  have lt: "x < n" using assms by (simp add: word_less_nat_alt)
  show u: "unat (x + 1) = Suc (unat x)" using lt by (rule unat_succ_less)
  then have "x + 1 < n" using assms by (simp add: word_less_nat_alt)
  then show "(x + 1) mod n = x + 1" by (rule mod_word_less)
qed

lemma fill_slots:
  assumes "mBuffer (mAuxBuffer rb) = 0"
    and "counters w (mOccupiedSlots rb) = Some c"
    and "unat c + length cs \<le> unat (mSlotCount rb)"
    and "unat (mCurrentSlot rb) + length cs < unat (mSlotCount rb)"
  shows "ring_run (map NewAllocation cs) (rb, w) =
           Inr (map (\<lambda>k. (mBuffer (mBuffer_ring rb),
                           (mCurrentSlot rb + of_nat (Suc k)) * mSlotSizeBytes rb)) [0..<length cs],
                rb\<lparr>mCurrentSlot := mCurrentSlot rb + of_nat (length cs)\<rparr>,
                w\<lparr>counters := (counters w)(mOccupiedSlots rb \<mapsto> c + of_nat (length cs)),
                  completedHandlers :=
                    completedHandlers w @ map (\<lambda>x. (x, mOccupiedSlots rb)) cs\<rparr>)"
  using assms
proof (induction cs arbitrary: rb w c)
  case Nil
  have "(counters w)(mOccupiedSlots rb \<mapsto> c) = counters w"
    using Nil.prems(2) by (rule map_upd_triv)
  then show ?case by simp
next
  case (Cons x cs)
  let ?a = "mOccupiedSlots rb"
  let ?rb1 = "rb\<lparr>mCurrentSlot := mCurrentSlot rb + 1\<rparr>"
  let ?w1 = "w\<lparr>counters := (counters w)(?a \<mapsto> c + 1),
               completedHandlers := completedHandlers w @ [(x, ?a)]\<rparr>"
  have clt: "c < mSlotCount rb" using Cons.prems(3) by (simp add: word_less_nat_alt)
  have cur: "Suc (unat (mCurrentSlot rb)) < unat (mSlotCount rb)" using Cons.prems(4) by simp
  have m: "(mCurrentSlot rb + 1) mod mSlotCount rb = mCurrentSlot rb + 1"
    and ucur: "unat (mCurrentSlot rb + 1) = Suc (unat (mCurrentSlot rb))"
    using word_succ_mod [OF cur] by simp_all
  have uc: "unat (c + 1) = Suc (unat c)" using clt by (rule unat_succ_less)
  have step: "createNewAllocation x rb w =
      Inr ((mBuffer (mBuffer_ring rb), (mCurrentSlot rb + 1) * mSlotSizeBytes rb), ?rb1, ?w1)"
    using create_slot_registers [OF Cons.prems(2) clt Cons.prems(1), of x] unfolding m .
  have rest: "ring_run (map NewAllocation cs) (?rb1, ?w1) =
      Inr (map (\<lambda>k. (mBuffer (mBuffer_ring ?rb1),
                      (mCurrentSlot ?rb1 + of_nat (Suc k)) * mSlotSizeBytes ?rb1)) [0..<length cs],
           ?rb1\<lparr>mCurrentSlot := mCurrentSlot ?rb1 + of_nat (length cs)\<rparr>,
           ?w1\<lparr>counters := (counters ?w1)(mOccupiedSlots ?rb1 \<mapsto> c + 1 + of_nat (length cs)),
              completedHandlers :=
                completedHandlers ?w1 @ map (\<lambda>x. (x, mOccupiedSlots ?rb1)) cs\<rparr>)"
    using Cons.prems(1,3,4) uc ucur by (intro Cons.IH) simp_all
  have shift: "map (\<lambda>k. (mBuffer (mBuffer_ring rb),
                      (mCurrentSlot rb + of_nat (Suc k)) * mSlotSizeBytes rb)) [0..<length (x # cs)]
      = (mBuffer (mBuffer_ring rb), (mCurrentSlot rb + 1) * mSlotSizeBytes rb)
        # map (\<lambda>k. (mBuffer (mBuffer_ring rb),
                      (mCurrentSlot rb + 1 + of_nat (Suc k)) * mSlotSizeBytes rb)) [0..<length cs]"
    by (simp add: upt_rec [of 0] map_Suc_upt [symmetric] add.assoc del: upt_Suc)
  have e1: "?rb1\<lparr>mCurrentSlot := mCurrentSlot ?rb1 + of_nat (length cs)\<rparr>
      = rb\<lparr>mCurrentSlot := mCurrentSlot rb + of_nat (length (x # cs))\<rparr>"
    by (simp add: add.assoc)
  have e2: "?w1\<lparr>counters := (counters ?w1)(mOccupiedSlots ?rb1 \<mapsto> c + 1 + of_nat (length cs)),
              completedHandlers :=
                completedHandlers ?w1 @ map (\<lambda>x. (x, mOccupiedSlots ?rb1)) cs\<rparr>
      = w\<lparr>counters := (counters w)(mOccupiedSlots rb \<mapsto> c + of_nat (length (x # cs))),
                  completedHandlers :=
                    completedHandlers w @ map (\<lambda>x. (x, mOccupiedSlots rb)) (x # cs)\<rparr>"
    by (simp add: add.assoc)
  have e3: "map (\<lambda>k. (mBuffer (mBuffer_ring ?rb1),
                      (mCurrentSlot ?rb1 + of_nat (Suc k)) * mSlotSizeBytes ?rb1)) [0..<length cs]
      = map (\<lambda>k. (mBuffer (mBuffer_ring rb),
                      (mCurrentSlot rb + 1 + of_nat (Suc k)) * mSlotSizeBytes rb)) [0..<length cs]"
    by simp
  have rest': "ring_run (map NewAllocation cs) (?rb1, ?w1) =
      Inr (map (\<lambda>k. (mBuffer (mBuffer_ring rb),
                      (mCurrentSlot rb + 1 + of_nat (Suc k)) * mSlotSizeBytes rb)) [0..<length cs],
           rb\<lparr>mCurrentSlot := mCurrentSlot rb + of_nat (length (x # cs))\<rparr>,
           w\<lparr>counters := (counters w)(mOccupiedSlots rb \<mapsto> c + of_nat (length (x # cs))),
                  completedHandlers :=
                    completedHandlers w @ map (\<lambda>x. (x, mOccupiedSlots rb)) (x # cs)\<rparr>)"
    using rest by (simp only: e1 e2 e3)
  have "ring_run (map NewAllocation (x # cs)) (rb, w) =
      (case ring_run (map NewAllocation cs) (?rb1, ?w1) of
         Inl e \<Rightarrow> Inl e
       | Inr (ps, s) \<Rightarrow> Inr ((mBuffer (mBuffer_ring rb), (mCurrentSlot rb + 1) * mSlotSizeBytes rb) # ps, s))"
    using step by simp
  also have "\<dots> = Inr ((mBuffer (mBuffer_ring rb), (mCurrentSlot rb + 1) * mSlotSizeBytes rb)
        # map (\<lambda>k. (mBuffer (mBuffer_ring rb),
                      (mCurrentSlot rb + 1 + of_nat (Suc k)) * mSlotSizeBytes rb)) [0..<length cs],
           rb\<lparr>mCurrentSlot := mCurrentSlot rb + of_nat (length (x # cs))\<rparr>,
           w\<lparr>counters := (counters w)(mOccupiedSlots rb \<mapsto> c + of_nat (length (x # cs))),
                  completedHandlers :=
                    completedHandlers w @ map (\<lambda>x. (x, mOccupiedSlots rb)) (x # cs)\<rparr>)"
    by (simp only: rest' sum.case prod.case)
  finally show ?case by (simp only: shift)
qed


lemma first_overflow:
  assumes new: "MetalRingBuffer_new tgt opts layout N w = Inr (rb, w0)"
    and len: "Suc (length cs) = unat N"
    and g: "grants (device w0) (requests (device w0)) (mSlotSizeBytes rb)"
  shows "\<exists>t'. ring_run (map NewAllocation (cs @ [c])) (rb, w0) =
           Inr (map (\<lambda>k. (mBuffer (mBuffer_ring rb), of_nat (Suc k) * mSlotSizeBytes rb))
                  [0..<length cs] @ [(Suc (requests (device w0)), 0)],
                rb\<lparr>mCurrentSlot := of_nat (length cs),
                   mAuxBuffer := \<lparr>mBuffer = Suc (requests (device w0)), mType = RING\<rparr>\<rparr>,
                w0\<lparr>counters := (counters w0)(mOccupiedSlots rb \<mapsto> N),
                   completedHandlers :=
                     completedHandlers w0 @ map (\<lambda>x. (x, mOccupiedSlots rb)) cs,
                   device := (device w0)\<lparr>requests := Suc (requests (device w0))\<rparr>,
                   trackerOf := t'\<rparr>)"
proof -
  note r = ring_new_result [OF new]
  have aux: "mBuffer (mAuxBuffer rb) = 0" and cur: "mCurrentSlot rb = 0"
    and cnt: "mSlotCount rb = N" and a: "mOccupiedSlots rb = nextCounter w"
    using r by (cases rb, simp add: TrackedMetalBuffer_nil_def)+
  have c1: "counters w0 (mOccupiedSlots rb) = Some 1" using r a by simp
  have N: "(1 :: 64 word) + of_nat (length cs) = N"
  proof -
    have "(1 :: 64 word) + of_nat (length cs) = of_nat (Suc (length cs))" by simp
    also have "\<dots> = N" unfolding len by simp
    finally show ?thesis .
  qed
  let ?rb1 = "rb\<lparr>mCurrentSlot := mCurrentSlot rb + of_nat (length cs)\<rparr>"
  let ?w1 = "w0\<lparr>counters := (counters w0)(mOccupiedSlots rb \<mapsto> 1 + of_nat (length cs)),
                completedHandlers :=
                  completedHandlers w0 @ map (\<lambda>x. (x, mOccupiedSlots rb)) cs\<rparr>"
  have fill: "ring_run (map NewAllocation cs) (rb, w0) =
      Inr (map (\<lambda>k. (mBuffer (mBuffer_ring rb),
                      (mCurrentSlot rb + of_nat (Suc k)) * mSlotSizeBytes rb)) [0..<length cs],
           ?rb1, ?w1)"
    using len cur cnt by (intro fill_slots [OF aux c1]) simp_all
  have "counters ?w1 (mOccupiedSlots ?rb1) = Some (mSlotCount ?rb1)" using N cnt by simp
  moreover have "grants (device ?w1) (requests (device ?w1)) (mSlotSizeBytes ?rb1)"
    using g by simp
  moreover have "mBuffer (mAuxBuffer ?rb1) \<noteq> 0 \<longrightarrow> mType (mAuxBuffer ?rb1) \<noteq> NONE"
    using aux by simp
  ultimately obtain t' where over: "createNewAllocation c ?rb1 ?w1 =
           Inr ((Suc (requests (device ?w1)), 0),
                ?rb1\<lparr>mAuxBuffer := \<lparr>mBuffer = Suc (requests (device ?w1)), mType = RING\<rparr>\<rparr>,
                ?w1\<lparr>device := (device ?w1)\<lparr>requests := Suc (requests (device ?w1))\<rparr>,
                    trackerOf := t'\<rparr>)"
    using create_overflow [of ?w1 ?rb1 c] by blast
  have "ring_run (map NewAllocation (cs @ [c])) (rb, w0) =
      Inr (map (\<lambda>k. (mBuffer (mBuffer_ring rb),
                      (mCurrentSlot rb + of_nat (Suc k)) * mSlotSizeBytes rb)) [0..<length cs]
             @ [(Suc (requests (device ?w1)), 0)],
           ?rb1\<lparr>mAuxBuffer := \<lparr>mBuffer = Suc (requests (device ?w1)), mType = RING\<rparr>\<rparr>,
           ?w1\<lparr>device := (device ?w1)\<lparr>requests := Suc (requests (device ?w1))\<rparr>,
               trackerOf := t'\<rparr>)"
    by (simp add: ring_run_append fill over del: of_nat_Suc)
  then show ?thesis using cur N by (intro exI [of _ t']) (simp del: of_nat_Suc)
qed

lemma slot_offsets_distinct:
  fixes s N :: "64 word"
  assumes s: "s \<noteq> 0" and fit: "unat s * unat N < 2 ^ 64" and n: "Suc n \<le> unat N"
  shows "distinct (map (\<lambda>k. (h :: nat, (of_nat (Suc k) :: 64 word) * s)) [0..<n])"
proof -
  have val: "unat ((of_nat (Suc k) :: 64 word) * s) = Suc k * unat s" if "k < n" for k
  proof -
    have "Suc k * unat s \<le> unat N * unat s" using that n by (intro mult_le_mono1) simp
    then have lt: "Suc k * unat s < 2 ^ 64" using fit by (simp add: mult.commute)
    have "unat s \<noteq> 0" using s by (simp add: unat_eq_zero)
    then have "1 \<le> unat s" by simp
    then have "Suc k * 1 \<le> Suc k * unat s" by (rule mult_le_mono2)
    then have "Suc k < 2 ^ 64" using lt by simp
    then have k: "unat (of_nat (Suc k) :: 64 word) = Suc k"
      by (simp add: unat_of_nat del: of_nat_Suc)
    have "unat (of_nat (Suc k) :: 64 word) * unat s < 2 ^ LENGTH(64)"
      unfolding k using lt by simp
    then have "unat ((of_nat (Suc k) :: 64 word) * s) = unat (of_nat (Suc k) :: 64 word) * unat s"
      by (simp only: unat_mult_lem)
    then show ?thesis by (simp only: k)
  qed
  have "inj_on (\<lambda>k. (h, (of_nat (Suc k) :: 64 word) * s)) (set [0..<n])"
  proof (rule inj_onI)
    fix i j
    assume i: "i \<in> set [0..<n]" and j: "j \<in> set [0..<n]"
      and e: "(h, (of_nat (Suc i) :: 64 word) * s) = (h, of_nat (Suc j) * s)"
    from e have "unat ((of_nat (Suc i) :: 64 word) * s) = unat ((of_nat (Suc j) :: 64 word) * s)"
      by simp
    then have "Suc i * unat s = Suc j * unat s" using val i j by simp
    moreover have "unat s \<noteq> 0" using s by (simp add: unat_eq_zero)
    ultimately show "i = j" by simp
  qed
  then show ?thesis by (simp add: distinct_map)
qed


lemma completedHandler_frame:
  "completedHandler a w = w\<lparr>counters := counters (completedHandler a w)\<rparr>"
  by (simp add: completedHandler_def split: option.splits)

lemma completedHandler_counters:
  "counters (completedHandler a' w) a =
     (case counters w a of
        None \<Rightarrow> None
      | Some c \<Rightarrow> Some (if a' = a then c - 1 else c))"
  by (simp add: completedHandler_def split: option.splits)

lemma fire_frame: "fire cmd hs w = w\<lparr>counters := counters (fire cmd hs w)\<rparr>"
proof (induction hs arbitrary: w)
  case Nil
  then show ?case by simp
next
  case (Cons h hs)
  obtain c a where h: "h = (c, a)" by (cases h)
  let ?w1 = "if c = cmd then completedHandler a w else w"
  have "fire cmd (h # hs) w = fire cmd hs ?w1" using h by simp
  also have "\<dots> = ?w1\<lparr>counters := counters (fire cmd hs ?w1)\<rparr>" by (rule Cons.IH)
  also have "\<dots> = w\<lparr>counters := counters (fire cmd hs ?w1)\<rparr>"
    by (subst completedHandler_frame) simp
  finally show ?case using h by simp
qed

lemma fire_counters:
  "counters (fire cmd hs w) a =
     (case counters w a of
        None \<Rightarrow> None
      | Some c \<Rightarrow> Some (c - of_nat (length (filter (\<lambda>h. h = (cmd, a)) hs))))"
proof (induction hs arbitrary: w)
  case Nil
  then show ?case by (simp split: option.splits)
next
  case (Cons h hs)
  obtain c a' where h: "h = (c, a')" by (cases h)
  show ?case unfolding h
    by (simp add: Cons.IH completedHandler_counters split: option.splits)
qed

lemma completed_counters:
  "counters (commandBufferCompleted cmd w) a =
     (case counters w a of
        None \<Rightarrow> None
      | Some c \<Rightarrow> Some (c - of_nat (registered cmd a w)))"
  unfolding registered_def commandBufferCompleted_def by (simp add: fire_counters)

lemma completed_frame:
  "commandBufferCompleted cmd w =
     w\<lparr>counters := counters (commandBufferCompleted cmd w),
       completedHandlers := filter (\<lambda>h. fst h \<noteq> cmd) (completedHandlers w)\<rparr>"
  unfolding commandBufferCompleted_def by (subst fire_frame) simp







lemma pending_frame: "completedHandlers w' = completedHandlers w \<Longrightarrow> pending a w' = pending a w"
  by (simp add: pending_def)





text \<open>
  The example of the specification: a ring buffer of two slots for the layout of size 40
  and alignment 8, on a target whose offset alignment is 32, built at the start of
  the process.
\<close>

lemmas ring_eval =
  ring_history_def MetalRingBuffer_new_def computeSlotSize_def align_def world_start_def
  tracker_start_def newBufferWithLength_def assign_tracked_def TrackedMetalBuffer_new_def
  TrackedMetalBuffer_nil_def swap_tracked_def TrackedMetalBuffer_delete_def getAliveBuffers_sum
  EXCESS_BUFFER_COUNT_def createNewAllocation_def fetch_add_def addCompletedHandler_def
  getCurrentAllocation_def commandBufferCompleted_def completedHandler_def assign_nil_def
  occupiedSlots_def Let_def word_le_nat_alt

lemma example_ring:
  "\<exists>rb w0. MetalRingBuffer_new OTHER_TARGET 0 \<lparr>size_of = 40, align_of = 8\<rparr> 2 (world_start None)
             = Inr (rb, w0)
     \<and> mBuffer (mBuffer_ring rb) = 1 \<and> mSlotSizeBytes rb = 64 \<and> mSlotCount rb = 2
     \<and> mAuxBuffer rb = TrackedMetalBuffer_nil \<and> mCurrentSlot rb = 0
     \<and> occupiedSlots rb w0 = Some 1
     \<and> requests (device w0) = 1 \<and> grants (device w0) = (\<lambda>_ _. True)
     \<and> completedHandlers w0 = []"
  by (simp add: ring_eval)


text \<open>
  C1, as stated: \<open>N\<close> consecutive calls of \<open>createNewAllocation\<close> with no completion return
  the offsets \<open>0, slotSize, ..., (N-1)*slotSize\<close> in that order.  The counter starts at
  1 and the cursor at 0 (slot 0 is the current allocation from the construction on):
  with two slots of 64 bytes, the first call returns offset 64 of the main buffer
  (handle 1) and the second call already returns offset 0 of an auxiliary buffer
  (handle 2).
\<close>

theorem ring_first_offset_counterexample:
  "map_sum id (\<lambda>(ps, rb, w). (ps, mBuffer (mBuffer_ring rb), occupiedSlots rb w))
     (ring_history OTHER_TARGET \<lparr>size_of = 40, align_of = 8\<rparr> 2
        [NewAllocation 1, NewAllocation 2])
   = Inr ([(1, 64), (2, 0)], 1, Some 2)"
  by (simp add: ring_eval)

text \<open>
  C1, amended: for a ring buffer constructed with \<open>slotCount = N\<close>, \<open>N\<close> consecutive calls
  of \<open>createNewAllocation\<close> with no completion return, for the first \<open>N - 1\<close> calls,
  the main buffer with the offsets \<open>slotSize, 2*slotSize, ..., (N-1)*slotSize\<close> in that
  order and, for the \<open>N\<close>-th call (when the device grants the request), offset 0 of a
  newly created auxiliary buffer, which is not the main buffer; these \<open>N\<close> pairs are
  distinct when the slot size is not zero and \<open>N * slotSize\<close> is below \<open>2 ^ 64\<close>; after
  the \<open>N\<close> calls the in-flight count is \<open>N\<close>.
\<close>

theorem ring_fills_then_overflows:
  assumes new: "MetalRingBuffer_new tgt opts layout N w = Inr (rb, w0)"
    and len: "Suc (length cs) = unat N"
    and g: "grants (device w0) (requests (device w0)) (mSlotSizeBytes rb)"
  shows "\<exists>rb' w'.
           ring_run (map NewAllocation (cs @ [c])) (rb, w0) =
             Inr (map (\<lambda>k. (mBuffer (mBuffer_ring rb), of_nat (Suc k) * mSlotSizeBytes rb))
                    [0..<length cs] @ [(Suc (requests (device w0)), 0)], rb', w')
         \<and> Suc (requests (device w0)) \<noteq> mBuffer (mBuffer_ring rb)
         \<and> occupiedSlots rb' w' = Some N
         \<and> (mSlotSizeBytes rb \<noteq> 0 \<and> unat (mSlotSizeBytes rb) * unat N < 2 ^ 64 \<longrightarrow>
              distinct (map (\<lambda>k. (mBuffer (mBuffer_ring rb), of_nat (Suc k) * mSlotSizeBytes rb))
                          [0..<length cs] @ [(Suc (requests (device w0)), 0)]))"
proof -
  let ?slots = "map (\<lambda>k. (mBuffer (mBuffer_ring rb), of_nat (Suc k) * mSlotSizeBytes rb))
                  [0..<length cs]"
  note r = ring_new_result [OF new]
  have main: "mBuffer (mBuffer_ring rb) = Suc (requests (device w))"
    using r by (cases rb) simp
  have dev: "requests (device w0) = Suc (requests (device w))" using r by simp
  have fresh: "Suc (requests (device w0)) \<noteq> mBuffer (mBuffer_ring rb)" using main dev by simp
  obtain t' where run: "ring_run (map NewAllocation (cs @ [c])) (rb, w0) =
           Inr (?slots @ [(Suc (requests (device w0)), 0)],
                rb\<lparr>mCurrentSlot := of_nat (length cs),
                   mAuxBuffer := \<lparr>mBuffer = Suc (requests (device w0)), mType = RING\<rparr>\<rparr>,
                w0\<lparr>counters := (counters w0)(mOccupiedSlots rb \<mapsto> N),
                   completedHandlers :=
                     completedHandlers w0 @ map (\<lambda>x. (x, mOccupiedSlots rb)) cs,
                   device := (device w0)\<lparr>requests := Suc (requests (device w0))\<rparr>,
                   trackerOf := t'\<rparr>)"
    using first_overflow [OF new len g, of c] by blast
  have d: "distinct (?slots @ [(Suc (requests (device w0)), 0)])"
    if "mSlotSizeBytes rb \<noteq> 0" "unat (mSlotSizeBytes rb) * unat N < 2 ^ 64"
  proof -
    have "Suc (length cs) \<le> unat N" using len by linarith
    then have "distinct ?slots" by (rule slot_offsets_distinct [OF that])
    moreover have "(Suc (requests (device w0)), 0) \<notin> set ?slots" using fresh by auto
    ultimately show ?thesis by simp
  qed
  show ?thesis using run fresh d by (simp add: occupiedSlots_def)
qed

theorem ring_fills_then_overflows_witness:
  "\<exists>rb w0. MetalRingBuffer_new OTHER_TARGET 0 \<lparr>size_of = 40, align_of = 8\<rparr> 2 (world_start None)
             = Inr (rb, w0)
     \<and> Suc (length [1 :: nat]) = unat (2 :: 64 word)
     \<and> grants (device w0) (requests (device w0)) (mSlotSizeBytes rb)
     \<and> mSlotSizeBytes rb = 64
     \<and> unat (mSlotSizeBytes rb) * unat (2 :: 64 word) < 2 ^ 64
     \<and> (\<exists>rb' w'. ring_run (map NewAllocation ([1] @ [2])) (rb, w0) = Inr ([(1, 64), (2, 0)], rb', w')
           \<and> occupiedSlots rb' w' = Some 2)
     \<and> distinct [(1 :: nat, 64 :: 64 word), (2, 0)]"
proof -
  obtain rb w0 where new: "MetalRingBuffer_new OTHER_TARGET 0 \<lparr>size_of = 40, align_of = 8\<rparr> 2
      (world_start None) = Inr (rb, w0)"
    and f: "mBuffer (mBuffer_ring rb) = 1" "mSlotSizeBytes rb = 64" "requests (device w0) = 1"
      "grants (device w0) = (\<lambda>_ _. True)"
    using example_ring by blast
  have len: "Suc (length [1 :: nat]) = unat (2 :: 64 word)" by simp
  have g: "grants (device w0) (requests (device w0)) (mSlotSizeBytes rb)" using f by simp
  have nz: "mSlotSizeBytes rb \<noteq> 0" using f by simp
  have fit: "unat (mSlotSizeBytes rb) * unat (2 :: 64 word) < 2 ^ 64" using f by simp
  from ring_fills_then_overflows [OF new len g, of 2] nz fit
  obtain rb' w' where "ring_run (map NewAllocation ([1] @ [2])) (rb, w0) =
      Inr ([(1, 64), (2, 0)], rb', w')" "occupiedSlots rb' w' = Some 2"
      "distinct [(1 :: nat, 64 :: 64 word), (2, 0)]"
    using f by auto
  then show ?thesis using new len g f(2) fit by blast
qed




text \<open>
  C3, as stated: every call on the non-overflow path both discards the auxiliary buffer and
  registers a completion callback.  The source does one or the other
  (\<open>if (mAuxBuffer) { mAuxBuffer = nil; } else { ... addCompletedHandler ... }\<close>): in
  the example, after two calls and the completion of the first command buffer, the
  count is 1 and no handler is registered; the third call returns slot 0 of the main
  buffer, raises the count to 2, and still no handler is registered.
\<close>

theorem slot_path_always_registers_counterexample:
  "map_sum id (\<lambda>(ps, rb, w). (ps, occupiedSlots rb w, completedHandlers w))
     (ring_history OTHER_TARGET \<lparr>size_of = 40, align_of = 8\<rparr> 2
        [NewAllocation 1, NewAllocation 2, Completed 1])
   = Inr ([(1, 64), (2, 0)], Some 1, [])
   \<and> map_sum id (\<lambda>(ps, rb, w). (ps, occupiedSlots rb w, completedHandlers w))
     (ring_history OTHER_TARGET \<lparr>size_of = 40, align_of = 8\<rparr> 2
        [NewAllocation 1, NewAllocation 2, Completed 1, NewAllocation 3])
   = Inr ([(1, 64), (2, 0), (1, 0)], Some 2, [])"
  by (simp add: ring_eval)

text \<open>
  C3, amended: whenever \<open>createNewAllocation\<close> takes the non-overflow path (in-flight count
  below \<open>slotCount\<close>), the same call advances the cursor to \<open>(cursor + 1) mod slotCount\<close>,
  adds one to the in-flight count and returns the handle of the main buffer with the
  offset of the new slot, which is the current allocation afterwards; if an auxiliary
  buffer exists, the call discards it (its tracked buffer is destroyed) and registers
  no callback; otherwise it registers one completion callback on the command buffer,
  which takes one off the in-flight count when it fires.
\<close>

theorem slot_path_effects:
  assumes c: "occupiedSlots rb w = Some c" and lt: "c < mSlotCount rb"
    and ty: "mBuffer (mAuxBuffer rb) \<noteq> 0 \<longrightarrow> mType (mAuxBuffer rb) \<noteq> NONE"
  shows "\<exists>rb' w'.
           createNewAllocation cmd rb w =
             Inr ((mBuffer (mBuffer_ring rb), mCurrentSlot rb' * mSlotSizeBytes rb), rb', w')
         \<and> mCurrentSlot rb' = (mCurrentSlot rb + 1) mod mSlotCount rb
         \<and> occupiedSlots rb' w' = Some (c + 1)
         \<and> mBuffer (mAuxBuffer rb') = 0
         \<and> getCurrentAllocation rb' =
             (mBuffer (mBuffer_ring rb), mCurrentSlot rb' * mSlotSizeBytes rb)
         \<and> (if mBuffer (mAuxBuffer rb) \<noteq> 0
             then completedHandlers w' = completedHandlers w
                \<and> TrackedMetalBuffer_delete (mAuxBuffer rb) (trackerOf w) = Inr (trackerOf w')
             else completedHandlers w' = completedHandlers w @ [(cmd, mOccupiedSlots rb)]
                \<and> trackerOf w' = trackerOf w
                \<and> occupiedSlots rb' (completedHandler (mOccupiedSlots rb) w') = Some c)"
proof (cases "mBuffer (mAuxBuffer rb) = 0")
  case True
  have c': "counters w (mOccupiedSlots rb) = Some c" using c by (simp add: occupiedSlots_def)
  show ?thesis
    using create_slot_registers [OF c' lt True, of cmd] True
    by (simp add: occupiedSlots_def getCurrentAllocation_def completedHandler_def)
next
  case False
  have c': "counters w (mOccupiedSlots rb) = Some c" using c by (simp add: occupiedSlots_def)
  have ty': "mType (mAuxBuffer rb) \<noteq> NONE" using ty False by simp
  obtain t' where "createNewAllocation cmd rb w =
           Inr ((mBuffer (mBuffer_ring rb),
                 ((mCurrentSlot rb + 1) mod mSlotCount rb) * mSlotSizeBytes rb),
                rb\<lparr>mCurrentSlot := (mCurrentSlot rb + 1) mod mSlotCount rb,
                   mAuxBuffer := TrackedMetalBuffer_nil\<rparr>,
                w\<lparr>counters := (counters w)(mOccupiedSlots rb \<mapsto> c + 1), trackerOf := t'\<rparr>)"
      "TrackedMetalBuffer_delete (mAuxBuffer rb) (trackerOf w) = Inr t'"
    using create_slot_discards [OF c' lt False ty', of cmd] by blast
  then show ?thesis using False
    by (simp add: occupiedSlots_def getCurrentAllocation_def TrackedMetalBuffer_nil_def)
qed

theorem slot_path_effects_witness:
  "\<exists>rb w0. occupiedSlots rb w0 = Some 1 \<and> (1 :: 64 word) < mSlotCount rb
     \<and> mBuffer (mAuxBuffer rb) = 0
     \<and> (\<exists>rb' w'. createNewAllocation 7 rb w0 = Inr ((1, 64), rb', w')
           \<and> occupiedSlots rb' w' = Some 2 \<and> completedHandlers w' = [(7, mOccupiedSlots rb)])"
proof -
  obtain rb w0 where f: "mBuffer (mBuffer_ring rb) = 1" "mSlotSizeBytes rb = 64" "mSlotCount rb = 2"
      "mAuxBuffer rb = TrackedMetalBuffer_nil" "mCurrentSlot rb = 0"
      "occupiedSlots rb w0 = Some 1" "completedHandlers w0 = []"
    using example_ring by blast
  have h1: "occupiedSlots rb w0 = Some 1" by (rule f)
  have h2: "(1 :: 64 word) < mSlotCount rb" using f by simp
  have aux: "mBuffer (mAuxBuffer rb) = 0" using f by (simp add: TrackedMetalBuffer_nil_def)
  then have h3: "mBuffer (mAuxBuffer rb) \<noteq> 0 \<longrightarrow> mType (mAuxBuffer rb) \<noteq> NONE" by simp
  from slot_path_effects [OF h1 h2 h3, of 7]
  obtain rb' w' where "createNewAllocation 7 rb w0 =
             Inr ((mBuffer (mBuffer_ring rb), mCurrentSlot rb' * mSlotSizeBytes rb), rb', w')"
      "mCurrentSlot rb' = (mCurrentSlot rb + 1) mod mSlotCount rb"
      "occupiedSlots rb' w' = Some (1 + 1)"
      "completedHandlers w' = completedHandlers w0 @ [(7, mOccupiedSlots rb)]"
    using aux by auto
  then have "createNewAllocation 7 rb w0 = Inr ((1, 64), rb', w')
      \<and> occupiedSlots rb' w' = Some 2 \<and> completedHandlers w' = [(7, mOccupiedSlots rb)]"
    using f by simp
  then show ?thesis using h1 h2 aux by blast
qed





text \<open>
  The overflow path registers no handler either.  In the example, once the third call
  has taken slot 0, the count is 2 with no handler left: every command buffer can
  complete, and the next call still takes the overflow path.
\<close>

lemma count_stays_after_overflow:
  "map_sum id (\<lambda>(ps, rb, w). (ps, occupiedSlots rb w, completedHandlers w))
     (ring_history OTHER_TARGET \<lparr>size_of = 40, align_of = 8\<rparr> 2
        [NewAllocation 1, NewAllocation 2, Completed 1, NewAllocation 3,
         Completed 2, Completed 3, NewAllocation 4])
   = Inr ([(1, 64), (2, 0), (1, 0), (3, 0)], Some 2, [])"
  by (simp add: ring_eval)

text \<open>Released counters stay released, whatever happens later in the process.\<close>

lemma create_keeps_released:
  assumes "createNewAllocation cmd rb w = Inr (p, rb', w')"
  shows "nextCounter w' = nextCounter w \<and> (counters w a = None \<longrightarrow> counters w' a = None)"
  using assms
  by (auto simp: createNewAllocation_def fetch_add_def addCompletedHandler_def Let_def
      split: option.splits if_splits prod.splits sum.splits)

lemma create_registers_own_counter:
  assumes "createNewAllocation cmd rb w = Inr (p, rb', w')"
  shows "set (completedHandlers w') \<subseteq> insert (cmd, mOccupiedSlots rb) (set (completedHandlers w))"
  using assms
  by (auto simp: createNewAllocation_def fetch_add_def addCompletedHandler_def Let_def
      split: option.splits if_splits prod.splits sum.splits)

lemma delete_releases:
  assumes "MetalRingBuffer_delete rb w = Inr w'"
  shows "counters w' = (counters w)(mOccupiedSlots rb := None) \<and> nextCounter w' = nextCounter w
       \<and> completedHandlers w' = completedHandlers w"
  using assms by (auto simp: MetalRingBuffer_delete_def Let_def split: sum.splits)

lemma step_keeps_released:
  assumes "process_step ev w = Inr w'" and "counters w a = None" and "a < nextCounter w"
  shows "counters w' a = None \<and> a < nextCounter w'"
proof (cases ev)
  case (CommandBufferCompletes cmdBuffer)
  then have w': "w' = commandBufferCompleted cmdBuffer w" using assms(1) by simp
  have "nextCounter (commandBufferCompleted cmdBuffer w) = nextCounter w"
    by (subst completed_frame) simp
  then show ?thesis using assms(2,3) unfolding w' by (simp add: completed_counters)
next
  case (RingBufferConstructed tgt options layout slotCount)
  then obtain rb where "MetalRingBuffer_new tgt options layout slotCount w = Inr (rb, w')"
    using assms(1) by (cases "MetalRingBuffer_new tgt options layout slotCount w") auto
  then show ?thesis using ring_new_result assms(2,3) by fastforce
next
  case (RingBufferAllocates cmdBuffer rb)
  then obtain p rb' where "createNewAllocation cmdBuffer rb w = Inr (p, rb', w')"
    using assms(1) by (cases "createNewAllocation cmdBuffer rb w") auto
  then show ?thesis using create_keeps_released [of cmdBuffer rb w p rb' w' a] assms(2,3) by simp
next
  case (RingBufferDestroyed rb)
  then have "MetalRingBuffer_delete rb w = Inr w'" using assms(1) by simp
  then show ?thesis using delete_releases assms(2,3) by fastforce
qed

lemma run_keeps_released:
  "process_run evs w = Inr w' \<Longrightarrow> counters w a = None \<Longrightarrow> a < nextCounter w
     \<Longrightarrow> counters w' a = None \<and> a < nextCounter w'"
proof (induction evs arbitrary: w)
  case Nil
  then show ?case by simp
next
  case (Cons ev evs)
  then obtain w1 where s: "process_step ev w = Inr w1" and r: "process_run evs w1 = Inr w'"
    by (auto split: sum.splits)
  have "counters w1 a = None \<and> a < nextCounter w1"
    using step_keeps_released [OF s Cons.prems(2,3)] .
  then show ?case using Cons.IH [OF r] by simp
qed

text \<open>
  C9: once a ring buffer is destroyed, a completion callback it registered is a no-op whenever
  it fires later (after any completions, constructions, allocations and destructions
  in the process): the world after the callback is the world before it.  While the
  ring buffer is alive the callback changes the shared counter, by one, and nothing
  else.  A callback registered by \<open>createNewAllocation\<close> refers to nothing but the
  counter of its ring buffer.
\<close>

theorem destroyed_ring_handler_is_noop:
  assumes del: "MetalRingBuffer_delete rb w = Inr w'"
    and made: "mOccupiedSlots rb < nextCounter w"
    and l: "process_run evs w' = Inr w''"
  shows "completedHandler (mOccupiedSlots rb) w'' = w''
       \<and> (\<forall>c. occupiedSlots rb w = Some c \<longrightarrow>
             completedHandler (mOccupiedSlots rb) w =
               w\<lparr>counters := (counters w)(mOccupiedSlots rb \<mapsto> c - 1)\<rparr>)
       \<and> (\<forall>cmd p rb1 w1. createNewAllocation cmd rb w = Inr (p, rb1, w1) \<longrightarrow>
             set (completedHandlers w1)
               \<subseteq> insert (cmd, mOccupiedSlots rb) (set (completedHandlers w)))"
proof -
  have "counters w' (mOccupiedSlots rb) = None" "mOccupiedSlots rb < nextCounter w'"
    using delete_releases [OF del] made by simp_all
  then have "counters w'' (mOccupiedSlots rb) = None"
    using run_keeps_released [OF l] by simp
  then have "completedHandler (mOccupiedSlots rb) w'' = w''"
    by (simp add: completedHandler_def)
  moreover have "\<forall>c. occupiedSlots rb w = Some c \<longrightarrow>
             completedHandler (mOccupiedSlots rb) w =
               w\<lparr>counters := (counters w)(mOccupiedSlots rb \<mapsto> c - 1)\<rparr>"
    by (simp add: occupiedSlots_def completedHandler_def)
  ultimately show ?thesis using create_registers_own_counter by blast
qed

theorem destroyed_ring_handler_is_noop_witness:
  "\<exists>rb w w'. MetalRingBuffer_delete rb w = Inr w'
     \<and> mOccupiedSlots rb < nextCounter w
     \<and> completedHandlers w' = [(1, mOccupiedSlots rb)]
     \<and> process_run [CommandBufferCompletes 1] w' = Inr (commandBufferCompleted 1 w')
     \<and> completedHandler (mOccupiedSlots rb) (commandBufferCompleted 1 w') =
         commandBufferCompleted 1 w'
     \<and> occupiedSlots rb w = Some 2
     \<and> completedHandler (mOccupiedSlots rb) w =
         w\<lparr>counters := (counters w)(mOccupiedSlots rb \<mapsto> 1)\<rparr>"
proof -
  have "\<exists>ps rb w w'.
          ring_history OTHER_TARGET \<lparr>size_of = 40, align_of = 8\<rparr> 2 [NewAllocation 1]
            = Inr (ps, rb, w)
        \<and> MetalRingBuffer_delete rb w = Inr w'
        \<and> mOccupiedSlots rb < nextCounter w
        \<and> completedHandlers w' = [(1, mOccupiedSlots rb)]
        \<and> occupiedSlots rb w = Some 2"
    by (simp add: ring_eval MetalRingBuffer_delete_def)
  then obtain rb w w' where del: "MetalRingBuffer_delete rb w = Inr w'"
    and made: "mOccupiedSlots rb < nextCounter w"
    and h: "completedHandlers w' = [(1, mOccupiedSlots rb)]"
    and c: "occupiedSlots rb w = Some 2"
    by blast
  have l: "process_run [CommandBufferCompletes 1] w' = Inr (commandBufferCompleted 1 w')"
    by simp
  from destroyed_ring_handler_is_noop [OF del made l] c
  have "completedHandler (mOccupiedSlots rb) (commandBufferCompleted 1 w') =
         commandBufferCompleted 1 w'
      \<and> completedHandler (mOccupiedSlots rb) w =
         w\<lparr>counters := (counters w)(mOccupiedSlots rb \<mapsto> 2 - 1)\<rparr>" by blast
  then show ?thesis using del made h l c by (intro exI [of _ rb] exI [of _ w] exI [of _ w']) simp
qed

end
